theory Spec2Isabelle
  imports Complex_Main "HOL-Library.Multiset"
begin

section \<open>Accessibility-aware routing: the data model\<close>

text \<open>
  The routing module works on JavaScript numbers. The numbers of the input (coordinates,
  the fields of edges and profiles) are finite and are modelled as reals, so rounding and
  the infinities of IEEE doubles are outside this development. A computed number can be
  NaN, which arithmetic propagates and every comparison answers with false; computed costs
  are therefore of the type \<open>jsnum\<close> below.
  Node identifiers are strings. An optional field (\<open>temporary\<close> of an edge, and the
  fields a route result may lack) is an \<open>option\<close>, \<open>None\<close> standing for an absent
  (undefined) field. The fields \<open>from\<close> and \<open>to\<close> of an edge are \<open>edge_from\<close> and \<open>edge_to\<close>
  here, and the \<open>id\<close> of a node is \<open>node_id\<close>.
\<close>

type_synonym nodeId = string

record node =
  node_id :: nodeId
  lat :: real
  lng :: real

record edge =
  edge_from :: nodeId
  edge_to :: nodeId
  distance :: real
  surface :: string
  curb :: real
  hasRamp :: bool
  slope :: real
  width :: real
  temporary :: "string option"

record profile =
  mobilityType :: string
  maxCurbHeight :: real
  maxSlope :: real
  minWidth :: real

text \<open>An adjacency entry \<open>{to, edge}\<close> and the adjacency index, a map from node id to
  the ordered list of its entries.\<close>

record neighbor =
  to :: nodeId
  edge :: edge

type_synonym graph = "nodeId \<rightharpoonup> neighbor list"

datatype level = Accessible | Partial | Inaccessible

text \<open>The reason strings of an issue, one constructor per message; the two messages that
  interpolate a number carry it.\<close>

datatype reason =
  CurbReason real
  | SlopeReason real
  | CobblestoneReason
  | GravelReason
  | TemporaryReason
  | NoRampReason

record issue =
  issue_edge :: edge
  issue_level :: level
  reasons :: "reason list"

datatype jsnum = Num real | NaN

definition jsnum_add :: "jsnum \<Rightarrow> jsnum \<Rightarrow> jsnum" where
  "jsnum_add a b = (case (a, b) of (Num x, Num y) \<Rightarrow> Num (x + y) | _ \<Rightarrow> NaN)"

definition jsnum_mult :: "jsnum \<Rightarrow> jsnum \<Rightarrow> jsnum" where
  "jsnum_mult a b = (case (a, b) of (Num x, Num y) \<Rightarrow> Num (x * y) | _ \<Rightarrow> NaN)"

definition jsnum_less :: "jsnum \<Rightarrow> jsnum \<Rightarrow> bool" where
  "jsnum_less a b = (case (a, b) of (Num x, Num y) \<Rightarrow> x < y | _ \<Rightarrow> False)"

record route_result =
  path :: "nodeId list"
  edges :: "edge list"
  totalDistance :: real
  totalWeight :: "jsnum option"
  issues :: "issue list"
  accessibilityScore :: "int option"
  notFound :: "bool option"

text \<open>
  What a run can end in besides a result: \<open>TypeError\<close> is the exception JavaScript raises
  on reading a property of \<open>undefined\<close>; \<open>UndefinedArithmetic\<close> marks the two places where
  the source would go on computing with \<open>undefined\<close> (a missing best-known cost), which the
  model does not follow further.
\<close>

datatype error = TypeError | UndefinedArithmetic

section \<open>Geodesic distance\<close>

definition toRad :: "real \<Rightarrow> real" where
  "toRad deg = deg * (pi / 180)"

text \<open>\<open>Math.atan2\<close> on the reals.\<close>

definition atan2 :: "real \<Rightarrow> real \<Rightarrow> real" where
  "atan2 y x =
     (if 0 < x then arctan (y / x)
      else if x < 0 then (if 0 \<le> y then arctan (y / x) + pi else arctan (y / x) - pi)
      else if 0 < y then pi / 2
      else if y < 0 then - (pi / 2)
      else 0)"

definition calculateDistance :: "real \<Rightarrow> real \<Rightarrow> real \<Rightarrow> real \<Rightarrow> real" where
  "calculateDistance lat1 lng1 lat2 lng2 =
     (let R = 6371000;
          dLat = toRad (lat2 - lat1);
          dLng = toRad (lng2 - lng1);
          a = sin (dLat / 2) * sin (dLat / 2) +
              cos (toRad lat1) * cos (toRad lat2) *
              sin (dLng / 2) * sin (dLng / 2);
          c = 2 * atan2 (sqrt a) (sqrt (1 - a))
      in R * c)"

section \<open>Accessibility evaluator\<close>

definition isEdgeAccessible :: "edge \<Rightarrow> profile \<Rightarrow> bool" where
  "isEdgeAccessible e p =
     (if curb e > maxCurbHeight p \<and> \<not> hasRamp e then False
      else if slope e > maxSlope p then False
      else if width e < minWidth p then False
      else if temporary e = Some ''repair'' \<and> mobilityType p = ''wheelchair'' then False
      else True)"

text \<open>JavaScript truthiness of the optional string \<open>temporary\<close>: absent and the empty
  string are falsy.\<close>

definition truthy :: "string option \<Rightarrow> bool" where
  "truthy t = (case t of None \<Rightarrow> False | Some s \<Rightarrow> s \<noteq> [])"

section \<open>Cost function\<close>

definition surfacePenalty :: "(string \<times> real) list" where
  "surfacePenalty =
     [(''asphalt'', 1.0), (''concrete'', 1.0), (''wood'', 1.1), (''gravel'', 1.5),
      (''cobblestone'', 1.8), (''stone'', 2.0), (''sand'', 2.5)]"

text \<open>
  The table is an object literal, so the lookup \<open>surfacePenalty[edge.surface]\<close> also finds
  the properties that every object inherits from \<open>Object.prototype\<close>. Their names, as
  ECMAScript (with its Annex B) fixes them:
\<close>

definition objectPrototypeKeys :: "string list" where
  "objectPrototypeKeys =
     [''constructor'', ''__defineGetter__'', ''__defineSetter__'', ''hasOwnProperty'',
      ''__lookupGetter__'', ''__lookupSetter__'', ''isPrototypeOf'', ''propertyIsEnumerable'',
      ''toString'', ''valueOf'', ''__proto__'', ''toLocaleString'']"

text \<open>What the lookup yields: a number of the table, \<open>undefined\<close>, or an inherited function
  or object.\<close>

datatype lookup = TableNumber real | Undefined | Inherited

definition surfaceLookup :: "string \<Rightarrow> lookup" where
  "surfaceLookup s =
     (case map_of surfacePenalty s of
        Some f \<Rightarrow> TableNumber f
      | None \<Rightarrow> if s \<in> set objectPrototypeKeys then Inherited else Undefined)"

text \<open>\<open>surfacePenalty[edge.surface] || 1.2\<close> as the factor of \<open>weight *= ...\<close>: a missing key
  and a falsy (zero) entry both give the default; an inherited function or object is
  truthy, so it is the factor itself, and as a number it is NaN.\<close>

definition surfaceFactor :: "string \<Rightarrow> jsnum" where
  "surfaceFactor s =
     (case surfaceLookup s of
        Undefined \<Rightarrow> Num 1.2
      | TableNumber f \<Rightarrow> if f = 0 then Num 1.2 else Num f
      | Inherited \<Rightarrow> NaN)"

definition calculateEdgeWeight :: "edge \<Rightarrow> profile \<Rightarrow> jsnum" where
  "calculateEdgeWeight e p =
     (let weight = Num (distance e);
          weight = jsnum_mult weight (surfaceFactor (surface e));
          weight = (if slope e > 0
                    then (let slopePenalty = 1 + slope e / 10;
                              weight = jsnum_mult weight (Num slopePenalty)
                          in if mobilityType p = ''wheelchair'' \<and> slope e > 5
                             then jsnum_mult weight (Num 1.5) else weight)
                    else weight);
          weight = (if curb e > 0 \<and> \<not> hasRamp e
                    then (let curbPenalty = 1 + curb e / 5 in jsnum_mult weight (Num curbPenalty))
                    else weight);
          weight = (if width e < 150
                    then (let widthPenalty = 1 + (150 - width e) / 100
                          in jsnum_mult weight (Num widthPenalty))
                    else weight);
          weight = (if truthy (temporary e) then jsnum_mult weight (Num 2.0) else weight)
      in weight)"

definition getEdgeAccessibilityLevel :: "edge \<Rightarrow> profile \<Rightarrow> level" where
  "getEdgeAccessibilityLevel e p =
     (if \<not> isEdgeAccessible e p then Inaccessible
      else if curb e > 3 \<or> slope e > 5 \<or> surface e = ''cobblestone'' \<or>
              surface e = ''gravel'' \<or> truthy (temporary e)
      then Partial
      else Accessible)"

section \<open>Graph construction\<close>

text \<open>\<open>adjacencyList.get(k)?.push(nb)\<close>: nothing happens when \<open>k\<close> is not a key.\<close>

definition push_entry :: "graph \<Rightarrow> nodeId \<Rightarrow> neighbor \<Rightarrow> graph" where
  "push_entry adj k nb = (case adj k of None \<Rightarrow> adj | Some l \<Rightarrow> adj(k \<mapsto> l @ [nb]))"

definition add_edge :: "graph \<Rightarrow> edge \<Rightarrow> graph" where
  "add_edge adj e =
     push_entry (push_entry adj (edge_from e) \<lparr>to = edge_to e, edge = e\<rparr>)
       (edge_to e) \<lparr>to = edge_from e, edge = e\<rparr>"

definition buildAdjacencyList :: "node list \<Rightarrow> edge list \<Rightarrow> graph" where
  "buildAdjacencyList nodes es =
     foldl add_edge (foldl (\<lambda>adj n. adj(node_id n \<mapsto> [])) Map.empty nodes) es"

text \<open>\<open>graph.get(id) || []\<close>: the entries of a node, none for an unknown id.\<close>

definition neighbors_of :: "graph \<Rightarrow> nodeId \<Rightarrow> neighbor list" where
  "neighbors_of g k = (case g k of None \<Rightarrow> [] | Some l \<Rightarrow> l)"

section \<open>Path reconstruction and score\<close>

definition calculateAccessibilityScore :: "edge list \<Rightarrow> profile \<Rightarrow> int" where
  "calculateAccessibilityScore es p =
     (if length es = 0 then 100
      else (let totalScore = foldl (\<lambda>t e. case getEdgeAccessibilityLevel e p of
                                              Accessible \<Rightarrow> t + 100
                                            | Partial \<Rightarrow> t + 60
                                            | Inaccessible \<Rightarrow> t + 0) 0 es
            in round (real_of_int totalScore / real (length es))))"

definition edge_reasons :: "edge \<Rightarrow> reason list" where
  "edge_reasons e =
     (if curb e > 3 then [CurbReason (curb e)] else []) @
     (if slope e > 5 then [SlopeReason (slope e)] else []) @
     (if surface e = ''cobblestone'' \<or> surface e = ''gravel''
      then [if surface e = ''cobblestone'' then CobblestoneReason else GravelReason] else []) @
     (if truthy (temporary e) then [TemporaryReason] else []) @
     (if \<not> hasRamp e \<and> curb e > 0 then [NoRampReason] else [])"

definition edge_issues :: "edge \<Rightarrow> profile \<Rightarrow> issue list" where
  "edge_issues e p =
     (let accessibility = getEdgeAccessibilityLevel e p
      in if accessibility \<noteq> Accessible
         then [\<lparr>issue_edge = e, issue_level = accessibility, reasons = edge_reasons e\<rparr>]
         else [])"

text \<open>The state of the backward walk: the path and edges built so far (each new element
  is put in front), the issues (each new one appended), the node reached and the distance
  summed.\<close>

record walk =
  w_path :: "nodeId list"
  w_edges :: "edge list"
  w_issues :: "issue list"
  w_current :: nodeId
  w_totalDistance :: real

text \<open>The \<open>while (cameFrom.has(current))\<close> loop. It does not end when the back-pointers
  form a cycle, hence a partial function; reading \<open>edge.distance\<close> of a node that has a
  back-pointer but no edge raises.\<close>

partial_function (option) reconstruct_loop ::
  "(nodeId \<rightharpoonup> nodeId) \<Rightarrow> (nodeId \<rightharpoonup> edge) \<Rightarrow> profile \<Rightarrow> walk \<Rightarrow> (error + walk) option"
where
  "reconstruct_loop cfrom eused p w =
     (case cfrom (w_current w) of
        None \<Rightarrow> Some (Inr w)
      | Some prev \<Rightarrow>
          (case eused (w_current w) of
             None \<Rightarrow> Some (Inl TypeError)
           | Some e \<Rightarrow>
               reconstruct_loop cfrom eused p
                 \<lparr>w_path = prev # w_path w,
                  w_edges = e # w_edges w,
                  w_issues = w_issues w @ edge_issues e p,
                  w_current = prev,
                  w_totalDistance = w_totalDistance w + distance e\<rparr>))"

definition reconstructPath ::
  "(nodeId \<rightharpoonup> nodeId) \<Rightarrow> (nodeId \<rightharpoonup> edge) \<Rightarrow> nodeId \<Rightarrow> jsnum \<Rightarrow> profile
     \<Rightarrow> (error + route_result) option"
where
  "reconstructPath cfrom eused endId tw p =
     (case reconstruct_loop cfrom eused p
             \<lparr>w_path = [endId], w_edges = [], w_issues = [], w_current = endId,
              w_totalDistance = 0\<rparr> of
        None \<Rightarrow> None
      | Some (Inl err) \<Rightarrow> Some (Inl err)
      | Some (Inr w) \<Rightarrow>
          Some (Inr \<lparr>path = w_path w, edges = w_edges w,
                     totalDistance = w_totalDistance w,
                     totalWeight = Some tw,
                     issues = w_issues w,
                     accessibilityScore = Some (calculateAccessibilityScore (w_edges w) p),
                     notFound = None\<rparr>))"

section \<open>The A* search\<close>

record search_state =
  openSet :: "(nodeId \<times> jsnum) list"
  cameFrom :: "nodeId \<rightharpoonup> nodeId"
  gScore :: "nodeId \<rightharpoonup> jsnum"
  edgeUsed :: "nodeId \<rightharpoonup> edge"

text \<open>\<open>new Map(nodes.map(n => [n.id, n]))\<close>: a later node with the same id replaces an
  earlier one.\<close>

definition nodeMap_of :: "node list \<Rightarrow> (nodeId \<rightharpoonup> node)" where
  "nodeMap_of nodes = foldl (\<lambda>m n. m(node_id n \<mapsto> n)) Map.empty nodes"

text \<open>The closure \<open>heuristic\<close>: reading \<open>node.lat\<close> raises when the id is not a node.\<close>

definition heuristic :: "(nodeId \<rightharpoonup> node) \<Rightarrow> node \<Rightarrow> nodeId \<Rightarrow> error + real" where
  "heuristic nodeMap endNode nid =
     (case nodeMap nid of
        None \<Rightarrow> Inl TypeError
      | Some n \<Rightarrow> Inr (calculateDistance (lat n) (lng n) (lat endNode) (lng endNode)))"

text \<open>The body of the \<open>for\<close> loop, for one adjacency entry of the node \<open>cur\<close>.\<close>

definition relax ::
  "(nodeId \<Rightarrow> error + real) \<Rightarrow> profile \<Rightarrow> nodeId \<Rightarrow> search_state \<Rightarrow> neighbor
     \<Rightarrow> error + search_state"
where
  "relax h p cur st nb =
     (if \<not> isEdgeAccessible (edge nb) p then Inr st
      else
        (case gScore st cur of
           None \<Rightarrow> Inl UndefinedArithmetic
         | Some gc \<Rightarrow>
             (let tentativeGScore = jsnum_add gc (calculateEdgeWeight (edge nb) p)
              in if (case gScore st (to nb) of
                       None \<Rightarrow> True
                     | Some g \<Rightarrow> jsnum_less tentativeGScore g)
                 then
                   (let st1 = st\<lparr>cameFrom := (cameFrom st)(to nb \<mapsto> cur),
                                 edgeUsed := (edgeUsed st)(to nb \<mapsto> edge nb),
                                 gScore := (gScore st)(to nb \<mapsto> tentativeGScore)\<rparr>
                    in case h (to nb) of
                         Inl err \<Rightarrow> Inl err
                       | Inr hv \<Rightarrow>
                           (let fScore = jsnum_add tentativeGScore (Num hv)
                            in if find (\<lambda>n. fst n = to nb) (openSet st1) = None
                               then Inr (st1\<lparr>openSet := openSet st1 @ [(to nb, fScore)]\<rparr>)
                               else Inr st1))
                 else Inr st)))"

fun relax_all ::
  "(nodeId \<Rightarrow> error + real) \<Rightarrow> profile \<Rightarrow> nodeId \<Rightarrow> search_state \<Rightarrow> neighbor list
     \<Rightarrow> error + search_state"
where
  "relax_all h p cur st [] = Inr st"
| "relax_all h p cur st (nb # nbs) =
     (case relax h p cur st nb of
        Inl err \<Rightarrow> Inl err
      | Inr st' \<Rightarrow> relax_all h p cur st' nbs)"

definition failureResult :: route_result where
  "failureResult =
     \<lparr>path = [], edges = [], totalDistance = 0, totalWeight = None, issues = [],
      accessibilityScore = None, notFound = None\<rparr>"

definition notFoundResult :: route_result where
  "notFoundResult =
     \<lparr>path = [], edges = [], totalDistance = 0, totalWeight = None, issues = [],
      accessibilityScore = None, notFound = Some True\<rparr>"

text \<open>
  \<open>openSet.sort((a, b) => a.fScore - b.fScore)\<close>. While no f-score is NaN the comparator is
  consistent and the sort is the stable sort by f-score. With a NaN among the f-scores the
  comparator is not consistent, and ECMAScript leaves the resulting order to the
  implementation: \<open>engineSort\<close> stands for what the engine does then, of which nothing is
  fixed but that it rearranges the list.
\<close>

definition engineSort :: "(nodeId \<times> jsnum) list \<Rightarrow> (nodeId \<times> jsnum) list" where
  "engineSort = (SOME f. \<forall>xs. mset (f xs) = mset xs)"

definition fScoreValue :: "nodeId \<times> jsnum \<Rightarrow> real" where
  "fScoreValue x = (case snd x of Num r \<Rightarrow> r | NaN \<Rightarrow> 0)"

definition sortByFScore :: "(nodeId \<times> jsnum) list \<Rightarrow> (nodeId \<times> jsnum) list" where
  "sortByFScore xs =
     (if NaN \<in> snd ` set xs then engineSort xs else sort_key fScoreValue xs)"

text \<open>The \<open>while (openSet.length > 0)\<close> loop: the sort by f-score, the first entry taken
  off, the goal test, then the entries of the current node relaxed in order.\<close>

partial_function (option) astar_loop ::
  "(nodeId \<Rightarrow> error + real) \<Rightarrow> graph \<Rightarrow> nodeId \<Rightarrow> profile \<Rightarrow> search_state
     \<Rightarrow> (error + route_result) option"
where
  "astar_loop h g endId p st =
     (if openSet st = [] then Some (Inr notFoundResult)
      else
        (let sorted = sortByFScore (openSet st);
             current = hd sorted;
             st1 = st\<lparr>openSet := tl sorted\<rparr>
         in if fst current = endId
            then (case gScore st1 endId of
                    None \<Rightarrow> Some (Inl UndefinedArithmetic)
                  | Some tw \<Rightarrow> reconstructPath (cameFrom st1) (edgeUsed st1) (fst current) tw p)
            else
              (let neighbors = neighbors_of g (fst current)
               in case relax_all h p (fst current) st1 neighbors of
                    Inl err \<Rightarrow> Some (Inl err)
                  | Inr st' \<Rightarrow> astar_loop h g endId p st')))"

definition findAccessibleRoute ::
  "graph \<Rightarrow> node list \<Rightarrow> nodeId \<Rightarrow> nodeId \<Rightarrow> profile \<Rightarrow> (error + route_result) option"
where
  "findAccessibleRoute g nodes startId endId p =
     (let nodeMap = nodeMap_of nodes
      in case (nodeMap startId, nodeMap endId) of
           (Some startNode, Some endNode) \<Rightarrow>
             (case heuristic nodeMap endNode startId of
                Inl err \<Rightarrow> Some (Inl err)
              | Inr h0 \<Rightarrow>
                  astar_loop (heuristic nodeMap endNode) g endId p
                    \<lparr>openSet = [(startId, Num h0)], cameFrom = Map.empty,
                     gScore = [startId \<mapsto> Num 0], edgeUsed = Map.empty\<rparr>)
         | _ \<Rightarrow> Some (Inr failureResult))"

section \<open>Example inputs\<close>

text \<open>The default profile of the application, and edges used below to run the
  definitions on concrete data.\<close>

definition wheelchairProfile :: profile where
  "wheelchairProfile =
     \<lparr>mobilityType = ''wheelchair'', maxCurbHeight = 5, maxSlope = 8, minWidth = 90\<rparr>"

definition lenientProfile :: profile where
  "lenientProfile =
     \<lparr>mobilityType = ''wheelchair'', maxCurbHeight = 10, maxSlope = 12, minWidth = 70\<rparr>"

definition steepDescent :: edge where
  "steepDescent =
     \<lparr>edge_from = ''A'', edge_to = ''B'', distance = 100, surface = ''asphalt'', curb = 0,
      hasRamp = True, slope = - 20, width = 200, temporary = None\<rparr>"

definition cobbledRise :: edge where
  "cobbledRise =
     \<lparr>edge_from = ''A'', edge_to = ''B'', distance = 100, surface = ''cobblestone'', curb = 5,
      hasRamp = False, slope = 6, width = 100, temporary = Some ''repair''\<rparr>"

definition flatPath :: edge where
  "flatPath =
     \<lparr>edge_from = ''A'', edge_to = ''B'', distance = 100, surface = ''asphalt'', curb = 0,
      hasRamp = True, slope = 0, width = 200, temporary = None\<rparr>"

definition gravelPath :: edge where
  "gravelPath =
     \<lparr>edge_from = ''B'', edge_to = ''C'', distance = 50, surface = ''gravel'', curb = 0,
      hasRamp = True, slope = 0, width = 200, temporary = None\<rparr>"

definition highCurb :: edge where
  "highCurb =
     \<lparr>edge_from = ''B'', edge_to = ''C'', distance = 50, surface = ''asphalt'', curb = 10,
      hasRamp = False, slope = 0, width = 200, temporary = None\<rparr>"

definition badLoop :: edge where
  "badLoop =
     \<lparr>edge_from = ''A'', edge_to = ''A'', distance = - 5, surface = ''asphalt'', curb = 0,
      hasRamp = True, slope = 0, width = 200, temporary = None\<rparr>"

definition nodeA :: node where "nodeA = \<lparr>node_id = ''A'', lat = 0, lng = 0\<rparr>"

definition nodeB :: node where "nodeB = \<lparr>node_id = ''B'', lat = 0, lng = 0\<rparr>"

definition nodeC :: node where "nodeC = \<lparr>node_id = ''C'', lat = 0, lng = 0\<rparr>"

definition nodeD :: node where "nodeD = \<lparr>node_id = ''D'', lat = 0, lng = 0\<rparr>"

definition shortAC :: edge where
  "shortAC =
     \<lparr>edge_from = ''A'', edge_to = ''C'', distance = 10, surface = ''asphalt'', curb = 0,
      hasRamp = True, slope = 0, width = 200, temporary = None\<rparr>"

definition shortCB :: edge where
  "shortCB =
     \<lparr>edge_from = ''C'', edge_to = ''B'', distance = 10, surface = ''asphalt'', curb = 0,
      hasRamp = True, slope = 0, width = 200, temporary = None\<rparr>"

definition danglingEdge :: edge where
  "danglingEdge =
     \<lparr>edge_from = ''A'', edge_to = ''Z'', distance = 10, surface = ''asphalt'', curb = 0,
      hasRamp = True, slope = 0, width = 200, temporary = None\<rparr>"

definition inheritedSurface :: edge where
  "inheritedSurface =
     \<lparr>edge_from = ''A'', edge_to = ''B'', distance = 100, surface = ''constructor'', curb = 0,
      hasRamp = True, slope = 0, width = 200, temporary = None\<rparr>"

text \<open>The three-node chain A, B, C: with a high kerb between B and C, with a gravel path
  there instead, and with a further edge from A to an id that is no node.\<close>

definition chainNodes :: "node list" where "chainNodes = [nodeA, nodeB, nodeC]"

definition chainGraph :: graph where
  "chainGraph = buildAdjacencyList chainNodes [flatPath, highCurb]"



definition shortBD :: edge where
  "shortBD =
     \<lparr>edge_from = ''B'', edge_to = ''D'', distance = 1, surface = ''asphalt'', curb = 0,
      hasRamp = True, slope = 0, width = 200, temporary = None\<rparr>"

definition directAD :: edge where
  "directAD =
     \<lparr>edge_from = ''A'', edge_to = ''D'', distance = 50, surface = ''asphalt'', curb = 0,
      hasRamp = True, slope = 0, width = 200, temporary = None\<rparr>"

text \<open>Four nodes: a long edge from A to B, a short way from A over C to B, one more step
  from B to D, and a direct edge from A to D. \<open>afterA\<close> and \<open>afterC\<close> are the states of the
  search from A to D after the neighbours of A, and then those of C, have been relaxed.\<close>

definition detourNodes :: "node list" where "detourNodes = [nodeA, nodeB, nodeC, nodeD]"

definition detourGraph :: graph where
  "detourGraph = buildAdjacencyList detourNodes [flatPath, shortAC, shortCB, shortBD, directAD]"

definition afterA :: search_state where
  "afterA =
     \<lparr>openSet = [(''B'', Num 100), (''C'', Num 10), (''D'', Num 50)],
      cameFrom = [''B'' \<mapsto> ''A'', ''C'' \<mapsto> ''A'', ''D'' \<mapsto> ''A''],
      gScore = [''A'' \<mapsto> Num 0, ''B'' \<mapsto> Num 100, ''C'' \<mapsto> Num 10, ''D'' \<mapsto> Num 50],
      edgeUsed = [''B'' \<mapsto> flatPath, ''C'' \<mapsto> shortAC, ''D'' \<mapsto> directAD]\<rparr>"

definition afterC :: search_state where
  "afterC =
     \<lparr>openSet = [(''D'', Num 50), (''B'', Num 100)],
      cameFrom = [''B'' \<mapsto> ''A'', ''C'' \<mapsto> ''A'', ''D'' \<mapsto> ''A'', ''B'' \<mapsto> ''C''],
      gScore = [''A'' \<mapsto> Num 0, ''B'' \<mapsto> Num 100, ''C'' \<mapsto> Num 10, ''D'' \<mapsto> Num 50,
                ''B'' \<mapsto> Num 20],
      edgeUsed = [''B'' \<mapsto> flatPath, ''C'' \<mapsto> shortAC, ''D'' \<mapsto> directAD,
                  ''B'' \<mapsto> shortCB]\<rparr>"

section \<open>Notions used to state the properties\<close>

text \<open>The entries that the edge list \<open>es\<close> contributes to the adjacency list of node \<open>k\<close>:
  for each edge in order, one entry if \<open>k\<close> is its \<open>from\<close> end and one if \<open>k\<close> is its \<open>to\<close>
  end.\<close>

definition entries_for :: "edge list \<Rightarrow> nodeId \<Rightarrow> neighbor list" where
  "entries_for es k =
     concat (map (\<lambda>e. (if edge_from e = k then [\<lparr>to = edge_to e, edge = e\<rparr>] else []) @
                       (if edge_to e = k then [\<lparr>to = edge_from e, edge = e\<rparr>] else [])) es)"

text \<open>The per-edge value of a classification in the accessibility score.\<close>

fun level_value :: "level \<Rightarrow> int" where
  "level_value Accessible = 100"
| "level_value Partial = 60"
| "level_value Inaccessible = 0"

text \<open>A well-formed adjacency index for a node list: every entry of a node of the list
  leads to a node of the list, and its edge has no negative distance.\<close>

definition wellFormed :: "graph \<Rightarrow> node list \<Rightarrow> bool" where
  "wellFormed g nodes \<longleftrightarrow>
     (\<forall>n \<in> set nodes. \<forall>nb \<in> set (neighbors_of g (node_id n)).
        to nb \<in> node_id ` set nodes \<and> 0 \<le> distance (edge nb))"

text \<open>One step along an edge that passes the gate; its reflexive transitive closure is
  being connected by accessible edges.\<close>

definition acc_step :: "graph \<Rightarrow> profile \<Rightarrow> (nodeId \<times> nodeId) set" where
  "acc_step g p =
     {(u, v). \<exists>nb \<in> set (neighbors_of g u). isEdgeAccessible (edge nb) p \<and> to nb = v}"

section \<open>Invariants of the search\<close>

text \<open>The state in which the loop is entered.\<close>

definition initial_state :: "nodeId \<Rightarrow> real \<Rightarrow> search_state" where
  "initial_state startId h0 =
     \<lparr>openSet = [(startId, Num h0)], cameFrom = Map.empty, gScore = [startId \<mapsto> Num 0],
      edgeUsed = Map.empty\<rparr>"

text \<open>
  What holds of every state of the loop, whatever the graph: the edges recorded are
  accessible; every node of the open set is connected to the start by accessible edges
  and has a best-known cost; the start has a cost; and the goal, once it has a cost, is in
  the open set.
\<close>

definition partial_inv ::
  "graph \<Rightarrow> profile \<Rightarrow> nodeId \<Rightarrow> nodeId \<Rightarrow> search_state \<Rightarrow> bool"
where
  "partial_inv g p s e st \<longleftrightarrow>
     (\<forall>v x. edgeUsed st v = Some x \<longrightarrow> isEdgeAccessible x p) \<and>
     (\<forall>x \<in> set (openSet st). (s, fst x) \<in> (acc_step g p)\<^sup>* \<and> gScore st (fst x) \<noteq> None) \<and>
     gScore st s \<noteq> None \<and>
     (gScore st e \<noteq> None \<longrightarrow> e \<in> fst ` set (openSet st))"

text \<open>A node that has a cost and is not in the open set is closed. Outside the set \<open>C\<close>,
  every accessible entry of a closed node leads to a node that has a cost.\<close>

definition closed_except :: "graph \<Rightarrow> profile \<Rightarrow> search_state \<Rightarrow> nodeId set \<Rightarrow> bool" where
  "closed_except g p st C \<longleftrightarrow>
     (\<forall>u. u \<notin> C \<and> gScore st u \<noteq> None \<and> u \<notin> fst ` set (openSet st) \<longrightarrow>
        (\<forall>nb \<in> set (neighbors_of g u).
           isEdgeAccessible (edge nb) p \<longrightarrow> gScore st (to nb) \<noteq> None))"

text \<open>From one state to a later one of the same round: no cost and no open-set entry is
  lost, and a node that has a cost only in the later state is in its open set.\<close>

definition grows_to :: "search_state \<Rightarrow> search_state \<Rightarrow> bool" where
  "grows_to st st' \<longleftrightarrow>
     (\<forall>u. gScore st u \<noteq> None \<longrightarrow> gScore st' u \<noteq> None) \<and>
     set (openSet st) \<subseteq> set (openSet st') \<and>
     (\<forall>u. gScore st' u \<noteq> None \<longrightarrow> gScore st u \<noteq> None \<or> u \<in> fst ` set (openSet st'))"

text \<open>
  For termination, every best-known cost that is a number is tied to a trail: the list of
  adjacency entries, latest first, along which the cost was obtained. A trail visits no
  node twice and never the start, its cost is the sum of the weights of its entries, and
  each node on it has by now a best-known cost no larger than the cost of the trail up to
  that node.
\<close>

definition wt :: "profile \<Rightarrow> neighbor \<Rightarrow> real" where
  "wt p nb = (case calculateEdgeWeight (edge nb) p of Num w \<Rightarrow> w | NaN \<Rightarrow> 0)"

definition cost :: "profile \<Rightarrow> neighbor list \<Rightarrow> real" where
  "cost p tr = sum_list (map (wt p) tr)"

fun dominated :: "(nodeId \<rightharpoonup> jsnum) \<Rightarrow> profile \<Rightarrow> neighbor list \<Rightarrow> bool" where
  "dominated gs p [] = True"
| "dominated gs p (nb # tr) =
     ((\<exists>y. gs (to nb) = Some (Num y) \<and> y \<le> cost p (nb # tr)) \<and> dominated gs p tr)"

definition entries_on :: "graph \<Rightarrow> nodeId set \<Rightarrow> neighbor set" where
  "entries_on g N = (\<Union>k\<in>N. set (neighbors_of g k))"

definition trail_ok ::
  "graph \<Rightarrow> nodeId set \<Rightarrow> profile \<Rightarrow> nodeId \<Rightarrow> (nodeId \<rightharpoonup> jsnum) \<Rightarrow> neighbor list \<Rightarrow> nodeId \<Rightarrow> real \<Rightarrow> bool"
where
  "trail_ok g N p start gs tr v x \<longleftrightarrow>
     set tr \<subseteq> entries_on g N \<and> distinct (map to tr) \<and> start \<notin> to ` set tr \<and>
     (case tr of [] \<Rightarrow> v = start | nb # _ \<Rightarrow> to nb = v) \<and> x = cost p tr \<and> dominated gs p tr"

text \<open>
  The order in which back-pointers go down: from a node to one of smaller cost, or of
  equal cost and shorter auxiliary list; from a node whose cost is NaN to any node whose
  cost is a number, or to one whose cost is NaN and whose auxiliary list is shorter.
\<close>

definition precedes :: "jsnum \<Rightarrow> nat \<Rightarrow> jsnum \<Rightarrow> nat \<Rightarrow> bool" where
  "precedes b m a n =
     (case (b, a) of
        (Num y, Num x) \<Rightarrow> y < x \<or> (y = x \<and> m < n)
      | (Num y, NaN) \<Rightarrow> True
      | (NaN, NaN) \<Rightarrow> m < n
      | (NaN, Num x) \<Rightarrow> False)"

text \<open>
  The invariant for a well-formed graph, with an auxiliary list \<open>T\<close> for each node, its
  trail when its cost is a number: such costs have trails; a back-pointer goes down in the
  order above and comes with an edge; the open set holds nodes of the graph that have a
  cost; the cost of the start is a number.
\<close>

definition search_inv ::
  "graph \<Rightarrow> nodeId set \<Rightarrow> profile \<Rightarrow> nodeId \<Rightarrow> (nodeId \<Rightarrow> neighbor list) \<Rightarrow> search_state \<Rightarrow> bool"
where
  "search_inv g N p start T st \<longleftrightarrow>
     (\<forall>v x. gScore st v = Some (Num x) \<longrightarrow> trail_ok g N p start (gScore st) (T v) v x) \<and>
     (\<forall>v u. cameFrom st v = Some u \<longrightarrow> v \<in> N \<and> edgeUsed st v \<noteq> None \<and>
        (\<exists>a b. gScore st v = Some a \<and> gScore st u = Some b \<and>
           precedes b (length (T u)) a (length (T v)))) \<and>
     (\<forall>e \<in> set (openSet st). fst e \<in> N \<and> gScore st (fst e) \<noteq> None) \<and>
     (\<exists>x. gScore st start = Some (Num x))"

text \<open>The measure: the costs of all duplicate-free lists of entries form a finite set; a
  node whose cost is a number is ranked by the number of those below its cost, a node
  without a cost above all of them, and a node whose cost is NaN lowest.\<close>

definition trail_costs :: "graph \<Rightarrow> nodeId set \<Rightarrow> profile \<Rightarrow> real set" where
  "trail_costs g N p = cost p ` {tr. set tr \<subseteq> entries_on g N \<and> distinct tr}"

definition node_rank :: "real set \<Rightarrow> (nodeId \<rightharpoonup> jsnum) \<Rightarrow> nodeId \<Rightarrow> nat" where
  "node_rank W gs v =
     (case gs v of
        None \<Rightarrow> card W + 1
      | Some NaN \<Rightarrow> 0
      | Some (Num x) \<Rightarrow> card {w \<in> W. w < x})"

definition search_measure :: "real set \<Rightarrow> nodeId set \<Rightarrow> search_state \<Rightarrow> nat" where
  "search_measure W N st = (\<Sum>v\<in>N. node_rank W (gScore st) v)"

section \<open>The gate and the cost function\<close>

lemma jsnum_add_simps [simp]:
  "jsnum_add (Num x) (Num y) = Num (x + y)"
  "jsnum_add NaN b = NaN"
  "jsnum_add a NaN = NaN"
  by (simp_all add: jsnum_add_def split: jsnum.splits)

lemma jsnum_mult_simps [simp]:
  "jsnum_mult (Num x) (Num y) = Num (x * y)"
  "jsnum_mult NaN b = NaN"
  "jsnum_mult a NaN = NaN"
  by (simp_all add: jsnum_mult_def split: jsnum.splits)

lemma jsnum_less_simps [simp]:
  "jsnum_less (Num x) (Num y) \<longleftrightarrow> x < y"
  "jsnum_less NaN b \<longleftrightarrow> False"
  "jsnum_less a NaN \<longleftrightarrow> False"
  by (simp_all add: jsnum_less_def split: jsnum.splits)

lemma surfaceFactor_inherited:
  "s \<in> set objectPrototypeKeys \<Longrightarrow> surfaceFactor s = NaN"
  by (auto simp: surfaceFactor_def surfaceLookup_def surfacePenalty_def objectPrototypeKeys_def)

lemma surfaceFactor_number:
  assumes "s \<notin> set objectPrototypeKeys"
  shows "\<exists>f. 1 \<le> f \<and> surfaceFactor s = Num f"
proof -
  define v :: real where
    "v = (case map_of surfacePenalty s of None \<Rightarrow> 1.2 | Some f \<Rightarrow> if f = 0 then 1.2 else f)"
  have "surfaceFactor s = Num v"
    using assms by (simp add: surfaceFactor_def surfaceLookup_def v_def split: option.splits)
  moreover have "1 \<le> v"
    by (simp add: v_def surfacePenalty_def)
  ultimately show ?thesis by blast
qed

lemma calculateEdgeWeight_inherited:
  "surface e \<in> set objectPrototypeKeys \<Longrightarrow> calculateEdgeWeight e p = NaN"
  by (simp add: calculateEdgeWeight_def Let_def surfaceFactor_inherited)

lemma weight_factor:
  assumes "surface e \<notin> set objectPrototypeKeys"
  shows "\<exists>f. 1 \<le> f \<and> calculateEdgeWeight e p = Num (distance e * f)"
proof -
  define f1 where "f1 = (if slope e > 0
     then (1 + slope e / 10) * (if mobilityType p = ''wheelchair'' \<and> slope e > 5 then 1.5 else 1)
     else (1::real))"
  define f2 where "f2 = (if curb e > 0 \<and> \<not> hasRamp e then 1 + curb e / 5 else (1::real))"
  define f3 where "f3 = (if width e < 150 then 1 + (150 - width e) / 100 else (1::real))"
  define f4 where "f4 = (if truthy (temporary e) then 2 else (1::real))"
  obtain f0 where s: "1 \<le> f0" "surfaceFactor (surface e) = Num f0"
    using surfaceFactor_number[OF assms] by blast
  have 1: "1 \<le> f1" unfolding f1_def by (auto intro: mult_ge1_I)
  have 2: "1 \<le> f2" unfolding f2_def by auto
  have 3: "1 \<le> f3" unfolding f3_def by auto
  have 4: "1 \<le> f4" unfolding f4_def by auto
  have eq: "calculateEdgeWeight e p = Num (distance e * (f0 * f1 * f2 * f3 * f4))"
    unfolding calculateEdgeWeight_def Let_def f1_def f2_def f3_def f4_def by (simp add: s(2))
  have "1 \<le> f0 * f1 * f2 * f3 * f4"
    using s(1) 1 2 3 4 by (intro mult_ge1_I) auto
  with eq show ?thesis by blast
qed

text \<open>For a surface that is not the name of an inherited property, the weight is a number,
  the distance times a factor that is at least 1; so it is at least a non-negative
  distance.\<close>

lemma weight_ge_distance:
  assumes "surface e \<notin> set objectPrototypeKeys" and "0 \<le> distance e"
  shows "\<exists>w. calculateEdgeWeight e p = Num w \<and> distance e \<le> w"
proof -
  obtain f where f: "1 \<le> f" "calculateEdgeWeight e p = Num (distance e * f)"
    using weight_factor[OF assms(1)] by blast
  have "distance e * 1 \<le> distance e * f"
    using f(1) assms(2) by (rule mult_left_mono)
  then show ?thesis using f(2) by simp
qed

lemma weight_value_nonneg:
  assumes "0 \<le> distance e"
  shows "0 \<le> (case calculateEdgeWeight e p of Num w \<Rightarrow> w | NaN \<Rightarrow> 0)"
proof (cases "surface e \<in> set objectPrototypeKeys")
  case True
  then show ?thesis by (simp add: calculateEdgeWeight_inherited)
next
  case False
  from weight_ge_distance[OF False assms] obtain w where
    "calculateEdgeWeight e p = Num w" "distance e \<le> w" by blast
  with assms show ?thesis by simp
qed

lemma cobbledRise_weight: "calculateEdgeWeight cobbledRise wheelchairProfile = Num 2592"
  by (simp add: calculateEdgeWeight_def cobbledRise_def wheelchairProfile_def
      surfaceFactor_def surfaceLookup_def surfacePenalty_def truthy_def)

text \<open>
  C1, as the code has it. The gate rejects an edge exactly when one of four tests holds:
  the curb is higher than the profile allows and there is no ramp; the slope, compared as
  it is stored and not by magnitude, is greater than \<open>maxSlope\<close>; the width is below
  \<open>minWidth\<close>; or the edge is under repair and the profile is a wheelchair. Equality at a
  threshold is accessible.
\<close>

theorem isEdgeAccessible_disqualifiers:
  "(\<not> isEdgeAccessible e p \<longleftrightarrow>
      (curb e > maxCurbHeight p \<and> \<not> hasRamp e) \<or>
      slope e > maxSlope p \<or>
      width e < minWidth p \<or>
      (temporary e = Some ''repair'' \<and> mobilityType p = ''wheelchair''))
   \<and> (curb e = maxCurbHeight p \<and> slope e = maxSlope p \<and> width e = minWidth p \<and>
        temporary e = None \<longrightarrow> isEdgeAccessible e p)"
  by (simp add: isEdgeAccessible_def)

theorem isEdgeAccessible_disqualifiers_witness:
  "isEdgeAccessible
     \<lparr>edge_from = ''A'', edge_to = ''B'', distance = 10, surface = ''asphalt'', curb = 5,
      hasRamp = False, slope = 8, width = 90, temporary = None\<rparr> wheelchairProfile
   \<and> \<not> isEdgeAccessible cobbledRise wheelchairProfile"
  using isEdgeAccessible_disqualifiers [of
      "\<lparr>edge_from = ''A'', edge_to = ''B'', distance = 10, surface = ''asphalt'', curb = 5,
        hasRamp = False, slope = 8, width = 90, temporary = None\<rparr>" wheelchairProfile]
    isEdgeAccessible_disqualifiers [of cobbledRise wheelchairProfile]
  by (simp add: wheelchairProfile_def cobbledRise_def)

text \<open>
  C1 as stated compares the magnitude of the slope. A 20 percent descent under the default
  wheelchair profile (limit 8) passes the gate although its magnitude exceeds the limit.
\<close>

theorem isEdgeAccessible_magnitude_counterexample:
  "\<not> (\<not> isEdgeAccessible steepDescent wheelchairProfile \<longleftrightarrow>
        (curb steepDescent > maxCurbHeight wheelchairProfile \<and> \<not> hasRamp steepDescent) \<or>
        \<bar>slope steepDescent\<bar> > maxSlope wheelchairProfile \<or>
        width steepDescent < minWidth wheelchairProfile \<or>
        (temporary steepDescent = Some ''repair'' \<and>
           mobilityType wheelchairProfile = ''wheelchair''))"
  by (simp add: isEdgeAccessible_def steepDescent_def wheelchairProfile_def)

text \<open>
  C2 has the weight at least the distance for every edge with non-negative distance, curb
  and width, unknown surfaces getting the default factor 1.2. The code does not give the
  default to every unknown surface: for the surface name \<open>constructor\<close>, which is not in the
  table, the lookup finds the inherited property, the factor is that function, and the
  weight is NaN, which is not at least the distance of 100.
\<close>

theorem inherited_surface_weight_is_NaN:
  "distance inheritedSurface = 100 \<and> curb inheritedSurface = 0 \<and> width inheritedSurface = 200 \<and>
   map_of surfacePenalty (surface inheritedSurface) = None \<and>
   surfaceLookup (surface inheritedSurface) = Inherited \<and>
   calculateEdgeWeight inheritedSurface wheelchairProfile = NaN"
  by (simp add: calculateEdgeWeight_def inheritedSurface_def wheelchairProfile_def
      surfaceFactor_def surfaceLookup_def surfacePenalty_def objectPrototypeKeys_def truthy_def)

text \<open>
  C6. The gate is monotone in the limits: between two profiles of the same mobility type,
  the second allowing at least the curb and the slope of the first and at most its minimum
  width, every edge accessible under the first is accessible under the second.
\<close>

theorem isEdgeAccessible_monotone:
  "mobilityType p2 = mobilityType p1 \<Longrightarrow> maxCurbHeight p1 \<le> maxCurbHeight p2 \<Longrightarrow>
   maxSlope p1 \<le> maxSlope p2 \<Longrightarrow> minWidth p2 \<le> minWidth p1 \<Longrightarrow>
   isEdgeAccessible e p1 \<Longrightarrow> isEdgeAccessible e p2"
  by (auto simp: isEdgeAccessible_def split: if_splits)

theorem isEdgeAccessible_monotone_witness:
  "mobilityType lenientProfile = mobilityType wheelchairProfile \<and>
   maxCurbHeight wheelchairProfile \<le> maxCurbHeight lenientProfile \<and>
   maxSlope wheelchairProfile \<le> maxSlope lenientProfile \<and>
   minWidth lenientProfile \<le> minWidth wheelchairProfile \<and>
   isEdgeAccessible steepDescent wheelchairProfile \<and>
   isEdgeAccessible steepDescent lenientProfile"
proof -
  have h: "mobilityType lenientProfile = mobilityType wheelchairProfile"
    "maxCurbHeight wheelchairProfile \<le> maxCurbHeight lenientProfile"
    "maxSlope wheelchairProfile \<le> maxSlope lenientProfile"
    "minWidth lenientProfile \<le> minWidth wheelchairProfile"
    by (simp_all add: lenientProfile_def wheelchairProfile_def)
  have a: "isEdgeAccessible steepDescent wheelchairProfile"
    by (simp add: isEdgeAccessible_def steepDescent_def wheelchairProfile_def)
  from isEdgeAccessible_monotone [OF h a] h a show ?thesis by simp
qed

lemma levels:
  "getEdgeAccessibilityLevel flatPath wheelchairProfile = Accessible"
  "getEdgeAccessibilityLevel gravelPath wheelchairProfile = Partial"
  "getEdgeAccessibilityLevel highCurb wheelchairProfile = Inaccessible"
  by (simp_all add: getEdgeAccessibilityLevel_def isEdgeAccessible_def flatPath_def gravelPath_def
      highCurb_def wheelchairProfile_def truthy_def)

section \<open>Properties of graph construction\<close>

lemma init_nodes:
  "foldl (\<lambda>adj n. adj(node_id n \<mapsto> [])) m nodes k =
     (if k \<in> node_id ` set nodes then Some [] else m k)"
  by (induction nodes arbitrary: m) auto

lemma entries_for_Nil [simp]: "entries_for [] k = []"
  by (simp add: entries_for_def)

lemma entries_for_single:
  "entries_for [e] k =
     (if edge_from e = k then [\<lparr>to = edge_to e, edge = e\<rparr>] else []) @
     (if edge_to e = k then [\<lparr>to = edge_from e, edge = e\<rparr>] else [])"
  by (simp add: entries_for_def)

lemma entries_for_Cons:
  "entries_for (e # es) k = entries_for [e] k @ entries_for es k"
  by (simp add: entries_for_def)

lemma add_edge_lookup:
  "add_edge adj e k = map_option (\<lambda>l. l @ entries_for [e] k) (adj k)"
  by (cases "adj k"; cases "adj (edge_from e)"; cases "adj (edge_to e)")
     (auto simp: add_edge_def push_entry_def entries_for_def)

lemma foldl_add_edge_lookup:
  "foldl add_edge adj es k = map_option (\<lambda>l. l @ entries_for es k) (adj k)"
proof (induction es arbitrary: adj)
  case Nil
  then show ?case by (simp add: option.map_ident)
next
  case (Cons e es)
  have "foldl add_edge adj (e # es) k = foldl add_edge (add_edge adj e) es k" by simp
  also have "\<dots> = map_option (\<lambda>l. l @ entries_for es k) (add_edge adj e k)"
    by (rule Cons.IH)
  also have "\<dots> = map_option (\<lambda>l. l @ entries_for (e # es) k) (adj k)"
    by (simp add: add_edge_lookup option.map_comp comp_def entries_for_Cons[of e es])
  finally show ?case .
qed

lemma buildAdjacencyList_lookup:
  "buildAdjacencyList nodes es k =
     (if k \<in> node_id ` set nodes then Some (entries_for es k) else None)"
  by (simp add: buildAdjacencyList_def foldl_add_edge_lookup init_nodes)

lemma filter_entries_single:
  "filter (\<lambda>nb. edge nb = e) (entries_for [x] k) = (if x = e then entries_for [e] k else [])"
  by (simp add: entries_for_def)

lemma filter_entries_count:
  "filter (\<lambda>nb. edge nb = e) (entries_for es k) =
     concat (replicate (count_list es e) (entries_for [e] k))"
proof (induction es)
  case Nil
  then show ?case by simp
next
  case (Cons x xs)
  have "filter (\<lambda>nb. edge nb = e) (entries_for (x # xs) k) =
          filter (\<lambda>nb. edge nb = e) (entries_for [x] k) @
          filter (\<lambda>nb. edge nb = e) (entries_for xs k)"
    by (simp add: entries_for_Cons[of x xs])
  then show ?case by (simp add: filter_entries_single Cons.IH)
qed

lemma filter_entries_once:
  "count_list es e = 1 \<Longrightarrow>
     filter (\<lambda>nb. edge nb = e) (entries_for es k) = entries_for [e] k"
  by (simp add: filter_entries_count)

text \<open>
  C9, as the code has it. Construction validates nothing. A node id that is not among the
  nodes has no adjacency list; the list of a node holds, in input order, one entry for
  every edge end lying on that node, whatever the distance of the edge and also when both
  ends are the same node. Hence an edge that occurs exactly once in the input and has two
  distinct endpoints among the nodes is carried by exactly one entry at each endpoint and
  by no entry elsewhere.
\<close>

theorem buildAdjacencyList_admits_every_edge:
  "(k \<notin> node_id ` set nodes \<longrightarrow> buildAdjacencyList nodes es k = None) \<and>
   (k \<in> node_id ` set nodes \<longrightarrow> buildAdjacencyList nodes es k = Some (entries_for es k)) \<and>
   (count_list es e = 1 \<and> edge_from e \<noteq> edge_to e \<and>
    edge_from e \<in> node_id ` set nodes \<and> edge_to e \<in> node_id ` set nodes \<longrightarrow>
      filter (\<lambda>nb. edge nb = e) (neighbors_of (buildAdjacencyList nodes es) (edge_from e)) =
        [\<lparr>to = edge_to e, edge = e\<rparr>] \<and>
      filter (\<lambda>nb. edge nb = e) (neighbors_of (buildAdjacencyList nodes es) (edge_to e)) =
        [\<lparr>to = edge_from e, edge = e\<rparr>] \<and>
      (k \<noteq> edge_from e \<and> k \<noteq> edge_to e \<longrightarrow>
        filter (\<lambda>nb. edge nb = e) (neighbors_of (buildAdjacencyList nodes es) k) = []))"
proof (intro conjI impI)
  show "buildAdjacencyList nodes es k = None" if "k \<notin> node_id ` set nodes"
    using that by (simp add: buildAdjacencyList_lookup)
  show "buildAdjacencyList nodes es k = Some (entries_for es k)" if "k \<in> node_id ` set nodes"
    using that by (simp add: buildAdjacencyList_lookup)
next
  assume a: "count_list es e = 1 \<and> edge_from e \<noteq> edge_to e \<and>
    edge_from e \<in> node_id ` set nodes \<and> edge_to e \<in> node_id ` set nodes"
  then have f: "\<And>j. filter (\<lambda>nb. edge nb = e) (entries_for es j) = entries_for [e] j"
    by (simp add: filter_entries_once)
  show "filter (\<lambda>nb. edge nb = e) (neighbors_of (buildAdjacencyList nodes es) (edge_from e)) =
        [\<lparr>to = edge_to e, edge = e\<rparr>]"
    using a by (auto simp add: neighbors_of_def buildAdjacencyList_lookup f entries_for_single)
  show "filter (\<lambda>nb. edge nb = e) (neighbors_of (buildAdjacencyList nodes es) (edge_to e)) =
        [\<lparr>to = edge_from e, edge = e\<rparr>]"
    using a by (auto simp add: neighbors_of_def buildAdjacencyList_lookup f entries_for_single)
  show "filter (\<lambda>nb. edge nb = e) (neighbors_of (buildAdjacencyList nodes es) k) = []"
    if "k \<noteq> edge_from e \<and> k \<noteq> edge_to e"
    using that by (auto simp add: neighbors_of_def buildAdjacencyList_lookup f entries_for_single)
qed

theorem buildAdjacencyList_admits_every_edge_witness:
  "count_list [gravelPath, flatPath, gravelPath] flatPath = 1 \<and>
   buildAdjacencyList [nodeA, nodeB, nodeC] [gravelPath, flatPath, gravelPath] ''Z'' = None \<and>
   buildAdjacencyList [nodeA, nodeB, nodeC] [gravelPath, flatPath, gravelPath] ''C'' =
     Some [\<lparr>to = ''B'', edge = gravelPath\<rparr>, \<lparr>to = ''B'', edge = gravelPath\<rparr>] \<and>
   filter (\<lambda>nb. edge nb = flatPath)
      (neighbors_of (buildAdjacencyList [nodeA, nodeB, nodeC] [gravelPath, flatPath, gravelPath])
         ''A'') = [\<lparr>to = ''B'', edge = flatPath\<rparr>] \<and>
   filter (\<lambda>nb. edge nb = flatPath)
      (neighbors_of (buildAdjacencyList [nodeA, nodeB, nodeC] [gravelPath, flatPath, gravelPath])
         ''B'') = [\<lparr>to = ''A'', edge = flatPath\<rparr>] \<and>
   filter (\<lambda>nb. edge nb = flatPath)
      (neighbors_of (buildAdjacencyList [nodeA, nodeB, nodeC] [gravelPath, flatPath, gravelPath])
         ''C'') = []"
proof -
  let ?G = "buildAdjacencyList [nodeA, nodeB, nodeC] [gravelPath, flatPath, gravelPath]"
  have c: "count_list [gravelPath, flatPath, gravelPath] flatPath = 1"
    by (simp add: flatPath_def gravelPath_def)
  have n: "''Z'' \<notin> node_id ` set [nodeA, nodeB, nodeC]" "''C'' \<in> node_id ` set [nodeA, nodeB, nodeC]"
    "edge_from flatPath \<in> node_id ` set [nodeA, nodeB, nodeC]"
    "edge_to flatPath \<in> node_id ` set [nodeA, nodeB, nodeC]"
    "edge_from flatPath \<noteq> edge_to flatPath" "''C'' \<noteq> edge_from flatPath \<and> ''C'' \<noteq> edge_to flatPath"
    by (simp_all add: nodeA_def nodeB_def nodeC_def flatPath_def)
  note z = buildAdjacencyList_admits_every_edge
      [of "''Z''" "[nodeA, nodeB, nodeC]" "[gravelPath, flatPath, gravelPath]" flatPath]
  note t = buildAdjacencyList_admits_every_edge
      [of "''C''" "[nodeA, nodeB, nodeC]" "[gravelPath, flatPath, gravelPath]" flatPath]
  have 1: "?G ''Z'' = None" using z n(1) by blast
  have 2: "?G ''C'' = Some (entries_for [gravelPath, flatPath, gravelPath] ''C'')"
    using t n(2) by blast
  have 3: "filter (\<lambda>nb. edge nb = flatPath) (neighbors_of ?G (edge_from flatPath)) =
             [\<lparr>to = edge_to flatPath, edge = flatPath\<rparr>]"
    "filter (\<lambda>nb. edge nb = flatPath) (neighbors_of ?G (edge_to flatPath)) =
             [\<lparr>to = edge_from flatPath, edge = flatPath\<rparr>]"
    "filter (\<lambda>nb. edge nb = flatPath) (neighbors_of ?G ''C'') = []"
    using t c n(3,4,5,6) by blast+
  have e: "edge_from flatPath = ''A''" "edge_to flatPath = ''B''"
    by (simp_all add: flatPath_def)
  have 4: "entries_for [gravelPath, flatPath, gravelPath] ''C'' =
      [\<lparr>to = ''B'', edge = gravelPath\<rparr>, \<lparr>to = ''B'', edge = gravelPath\<rparr>]"
    by (simp add: entries_for_def flatPath_def gravelPath_def)
  from c 1 2 3 show ?thesis unfolding e 4 by simp
qed

text \<open>
  C9 as stated has construction reject or ignore malformed edges. A self-loop of negative
  distance on node A is admitted: it becomes two entries of the adjacency list of A.
\<close>

theorem buildAdjacencyList_selfloop_counterexample:
  "distance badLoop < 0 \<and> edge_from badLoop = edge_to badLoop \<and>
   buildAdjacencyList [nodeA] [badLoop] ''A'' =
     Some [\<lparr>to = ''A'', edge = badLoop\<rparr>, \<lparr>to = ''A'', edge = badLoop\<rparr>]"
  by (simp add: buildAdjacencyList_def add_edge_def push_entry_def nodeA_def badLoop_def)

section \<open>The accessibility score\<close>

lemma foldl_score:
  "foldl (\<lambda>t e. case getEdgeAccessibilityLevel e p of
                   Accessible \<Rightarrow> t + 100 | Partial \<Rightarrow> t + 60 | Inaccessible \<Rightarrow> t + 0) a es =
   a + (\<Sum>e\<leftarrow>es. level_value (getEdgeAccessibilityLevel e p))"
  by (induction es arbitrary: a) (auto split: level.splits)

lemma calculateAccessibilityScore_mean:
  "calculateAccessibilityScore es p =
     (if es = [] then 100
      else round (real_of_int (\<Sum>e\<leftarrow>es. level_value (getEdgeAccessibilityLevel e p)) /
                  real (length es)))"
  by (simp add: calculateAccessibilityScore_def foldl_score)

lemma reconstructPath_fields:
  assumes "reconstructPath cfrom eused endId tw p = Some (Inr r)"
  shows "totalWeight r = Some tw"
    and "accessibilityScore r = Some (calculateAccessibilityScore (edges r) p)"
    and "notFound r = None"
  using assms by (auto simp: reconstructPath_def split: option.splits sum.splits)

lemma reconstruct_example:
  "reconstructPath [''B'' \<mapsto> ''A'', ''C'' \<mapsto> ''B''] [''B'' \<mapsto> flatPath, ''C'' \<mapsto> gravelPath]
      ''C'' (Num 175) wheelchairProfile =
     Some (Inr \<lparr>path = [''A'', ''B'', ''C''], edges = [flatPath, gravelPath],
       totalDistance = 150, totalWeight = Some (Num 175),
       issues = [\<lparr>issue_edge = gravelPath, issue_level = Partial, reasons = [GravelReason]\<rparr>],
       accessibilityScore = Some 80, notFound = None\<rparr>)"
  by (simp add: reconstructPath_def reconstruct_loop.simps edge_issues_def levels edge_reasons_def
       calculateAccessibilityScore_def)
    (simp add: gravelPath_def flatPath_def truthy_def)

text \<open>
  C8. The score of an empty edge list is 100; the score of a non-empty one is the mean of
  the per-edge values (100 accessible, 60 partial, 0 inaccessible) rounded to the nearest
  integer, halves upwards as \<open>Math.round\<close> does; and the \<open>accessibilityScore\<close> of every
  reconstructed route is this score of the route's own edge list.
\<close>

theorem accessibilityScore_rounded_mean:
 "calculateAccessibilityScore [] p = 100 \<and>
  (es \<noteq> [] \<longrightarrow> calculateAccessibilityScore es p =
      round (real_of_int (\<Sum>e\<leftarrow>es. level_value (getEdgeAccessibilityLevel e p)) /
             real (length es))) \<and>
  (reconstructPath cfrom eused endId tw p = Some (Inr r) \<longrightarrow>
      accessibilityScore r = Some (calculateAccessibilityScore (edges r) p))"
  using reconstructPath_fields(2)[of cfrom eused endId tw p r]
  by (simp add: calculateAccessibilityScore_mean)

theorem accessibilityScore_rounded_mean_witness:
  "calculateAccessibilityScore [flatPath, gravelPath] wheelchairProfile = 80 \<and>
   calculateAccessibilityScore [flatPath, gravelPath, highCurb] wheelchairProfile = 53 \<and>
   reconstructPath [''B'' \<mapsto> ''A'', ''C'' \<mapsto> ''B''] [''B'' \<mapsto> flatPath, ''C'' \<mapsto> gravelPath]
      ''C'' (Num 175) wheelchairProfile =
     Some (Inr \<lparr>path = [''A'', ''B'', ''C''], edges = [flatPath, gravelPath],
       totalDistance = 150, totalWeight = Some (Num 175),
       issues = [\<lparr>issue_edge = gravelPath, issue_level = Partial, reasons = [GravelReason]\<rparr>],
       accessibilityScore = Some 80, notFound = None\<rparr>)"
  using accessibilityScore_rounded_mean [of wheelchairProfile "[flatPath, gravelPath]"
      "[''B'' \<mapsto> ''A'', ''C'' \<mapsto> ''B'']" "[''B'' \<mapsto> flatPath, ''C'' \<mapsto> gravelPath]" "''C''"
      "Num 175"]
    accessibilityScore_rounded_mean [of wheelchairProfile "[flatPath, gravelPath, highCurb]"]
    reconstruct_example
  by (simp add: levels round_def)

section \<open>The search: first extraction and the shape of results\<close>

lemma calculateDistance_origin [simp]: "calculateDistance 0 0 0 0 = 0"
  by (simp add: calculateDistance_def toRad_def atan2_def)

lemma nodeMap_of_foldl:
  "foldl (\<lambda>m n. m(node_id n \<mapsto> n)) m0 nodes k = None \<longleftrightarrow>
     k \<notin> node_id ` set nodes \<and> m0 k = None"
  by (induction nodes arbitrary: m0) auto

lemma nodeMap_of_None: "nodeMap_of nodes k = None \<longleftrightarrow> k \<notin> node_id ` set nodes"
  by (simp add: nodeMap_of_def nodeMap_of_foldl)

lemma dom_nodeMap_of: "dom (nodeMap_of nodes) = node_id ` set nodes"
  using nodeMap_of_None[of nodes] by (auto simp: dom_def)

text \<open>
  C7. When the start is a node of the graph and the end is the same node, the first
  extraction is the goal: the result has the path with that single node, no edges, total
  distance 0, total weight 0, score 100 and no issues, whatever the graph and profile.
\<close>

theorem same_start_end:
  assumes "s \<in> node_id ` set nodes"
  shows "findAccessibleRoute g nodes s s p =
     Some (Inr \<lparr>path = [s], edges = [], totalDistance = 0, totalWeight = Some (Num 0), issues = [],
                accessibilityScore = Some 100, notFound = None\<rparr>)"
proof -
  obtain n where n: "nodeMap_of nodes s = Some n"
    using assms nodeMap_of_None[of nodes s] by (cases "nodeMap_of nodes s") auto
  have r: "reconstructPath Map.empty Map.empty s (Num 0) p =
     Some (Inr \<lparr>path = [s], edges = [], totalDistance = 0, totalWeight = Some (Num 0), issues = [],
                accessibilityScore = Some 100, notFound = None\<rparr>)"
    by (simp add: reconstructPath_def reconstruct_loop.simps calculateAccessibilityScore_def)
  show ?thesis
    unfolding findAccessibleRoute_def Let_def
    by (simp add: n heuristic_def astar_loop.simps sortByFScore_def r)
qed

theorem same_start_end_witness:
  "''A'' \<in> node_id ` set [nodeA, nodeB] \<and>
   findAccessibleRoute (buildAdjacencyList [nodeA, nodeB] [flatPath]) [nodeA, nodeB]
      ''A'' ''A'' wheelchairProfile =
     Some (Inr \<lparr>path = [''A''], edges = [], totalDistance = 0, totalWeight = Some (Num 0), issues = [],
                accessibilityScore = Some 100, notFound = None\<rparr>)"
proof -
  have h: "''A'' \<in> node_id ` set [nodeA, nodeB]"
    by (simp add: nodeA_def)
  from same_start_end [OF h] h show ?thesis by simp
qed

section \<open>Concrete runs of the search\<close>

lemma chain_ids: "node_id ` set chainNodes = {''A'', ''B'', ''C''}"
  by (auto simp: chainNodes_def nodeA_def nodeB_def nodeC_def)

lemma chainGraph_neighbors:
  "neighbors_of chainGraph ''A'' = [\<lparr>to = ''B'', edge = flatPath\<rparr>]"
  "neighbors_of chainGraph ''B'' = [\<lparr>to = ''A'', edge = flatPath\<rparr>, \<lparr>to = ''C'', edge = highCurb\<rparr>]"
  "neighbors_of chainGraph ''C'' = [\<lparr>to = ''B'', edge = highCurb\<rparr>]"
  by (simp_all add: neighbors_of_def chainGraph_def buildAdjacencyList_lookup chain_ids
      entries_for_def flatPath_def highCurb_def)


lemma chain_nodeMap:
  "nodeMap_of chainNodes ''A'' = Some nodeA"
  "nodeMap_of chainNodes ''B'' = Some nodeB"
  "nodeMap_of chainNodes ''C'' = Some nodeC"
  "nodeMap_of chainNodes ''Z'' = None"
  by (simp_all add: nodeMap_of_def chainNodes_def nodeA_def nodeB_def nodeC_def)

lemma chain_heuristic:
  "heuristic (nodeMap_of chainNodes) nodeC ''A'' = Inr 0"
  "heuristic (nodeMap_of chainNodes) nodeC ''B'' = Inr 0"
  "heuristic (nodeMap_of chainNodes) nodeC ''C'' = Inr 0"
  by (simp_all add: heuristic_def chain_nodeMap) (simp_all add: nodeA_def nodeB_def nodeC_def)

lemma access_facts:
  "isEdgeAccessible flatPath wheelchairProfile"
  "isEdgeAccessible gravelPath wheelchairProfile"
  "\<not> isEdgeAccessible highCurb wheelchairProfile"
  by (simp_all add: isEdgeAccessible_def flatPath_def gravelPath_def highCurb_def wheelchairProfile_def)

lemma weight_facts:
  "calculateEdgeWeight flatPath wheelchairProfile = Num 100"
  "calculateEdgeWeight gravelPath wheelchairProfile = Num 75"
  by (simp_all add: calculateEdgeWeight_def flatPath_def gravelPath_def wheelchairProfile_def
      surfaceFactor_def surfaceLookup_def surfacePenalty_def truthy_def)

lemma chain_run:
  "findAccessibleRoute chainGraph chainNodes ''A'' ''C'' wheelchairProfile = Some (Inr notFoundResult)"
  by (simp add: findAccessibleRoute_def Let_def chain_nodeMap chain_heuristic astar_loop.simps
      chainGraph_neighbors relax_def access_facts weight_facts sortByFScore_def fScoreValue_def)


section \<open>One relaxation step\<close>

lemma find_None_fst: "find (\<lambda>n. fst n = k) xs = None \<longleftrightarrow> k \<notin> fst ` set xs"
  by (force simp: find_None_iff)


lemma detour_ids: "node_id ` set detourNodes = {''A'', ''B'', ''C'', ''D''}"
  by (auto simp: detourNodes_def nodeA_def nodeB_def nodeC_def nodeD_def)

lemma detourGraph_neighbors:
  "neighbors_of detourGraph ''A'' =
     [\<lparr>to = ''B'', edge = flatPath\<rparr>, \<lparr>to = ''C'', edge = shortAC\<rparr>,
      \<lparr>to = ''D'', edge = directAD\<rparr>]"
  "neighbors_of detourGraph ''C'' =
     [\<lparr>to = ''A'', edge = shortAC\<rparr>, \<lparr>to = ''B'', edge = shortCB\<rparr>]"
  by (simp_all add: neighbors_of_def detourGraph_def buildAdjacencyList_lookup detour_ids
      entries_for_def flatPath_def shortAC_def shortCB_def shortBD_def directAD_def)

lemma detour_nodeMap:
  "nodeMap_of detourNodes ''A'' = Some nodeA"
  "nodeMap_of detourNodes ''D'' = Some nodeD"
  by (simp_all add: nodeMap_of_def detourNodes_def nodeA_def nodeB_def nodeC_def nodeD_def)

lemma detour_heuristic:
  "heuristic (nodeMap_of detourNodes) nodeD ''A'' = Inr 0"
  "heuristic (nodeMap_of detourNodes) nodeD ''B'' = Inr 0"
  "heuristic (nodeMap_of detourNodes) nodeD ''C'' = Inr 0"
  "heuristic (nodeMap_of detourNodes) nodeD ''D'' = Inr 0"
  by (simp_all add: heuristic_def nodeMap_of_def detourNodes_def nodeA_def nodeB_def nodeC_def
      nodeD_def)

lemma detour_facts:
  "isEdgeAccessible shortAC wheelchairProfile" "isEdgeAccessible shortCB wheelchairProfile"
  "isEdgeAccessible shortBD wheelchairProfile" "isEdgeAccessible directAD wheelchairProfile"
  "calculateEdgeWeight shortAC wheelchairProfile = Num 10"
  "calculateEdgeWeight shortCB wheelchairProfile = Num 10"
  "calculateEdgeWeight shortBD wheelchairProfile = Num 1"
  "calculateEdgeWeight directAD wheelchairProfile = Num 50"
  by (simp_all add: isEdgeAccessible_def calculateEdgeWeight_def shortAC_def shortCB_def
      shortBD_def directAD_def wheelchairProfile_def surfaceFactor_def surfaceLookup_def
      surfacePenalty_def truthy_def)

lemma detour_reconstruct:
  "cfrom ''D'' = Some ''A'' \<Longrightarrow> cfrom ''A'' = None \<Longrightarrow> eused ''D'' = Some directAD \<Longrightarrow>
   reconstructPath cfrom eused ''D'' (Num 50) wheelchairProfile =
   Some (Inr \<lparr>path = [''A'', ''D''], edges = [directAD], totalDistance = 50,
        totalWeight = Some (Num 50), issues = [], accessibilityScore = Some 100, notFound = None\<rparr>)"
  by (simp add: reconstructPath_def reconstruct_loop.simps edge_issues_def edge_reasons_def
       calculateAccessibilityScore_def getEdgeAccessibilityLevel_def detour_facts)
     (simp add: directAD_def truthy_def)

text \<open>
  C4 has an improved neighbour placed in the open set with the new f-score, a stale entry
  for it being replaced. The code does not do that. In the search from A to D on the
  four-node graph, B enters the open set with f-score 100; relaxing the neighbours of C
  lowers the best-known cost of B to 20 (its heuristic is 0), and the open set still holds
  B with f-score 100, behind D with f-score 50. So D is extracted next, and the search
  returns the direct route of weight 50, although the route over C and B weighs 21.
\<close>

theorem stale_entry_suboptimal_route:
  "relax_all (heuristic (nodeMap_of detourNodes) nodeD) wheelchairProfile ''A''
      ((initial_state ''A'' 0)\<lparr>openSet := []\<rparr>) (neighbors_of detourGraph ''A'') = Inr afterA \<and>
   sortByFScore (openSet afterA) = [(''C'', Num 10), (''D'', Num 50), (''B'', Num 100)] \<and>
   relax_all (heuristic (nodeMap_of detourNodes) nodeD) wheelchairProfile ''C''
      (afterA\<lparr>openSet := [(''D'', Num 50), (''B'', Num 100)]\<rparr>) (neighbors_of detourGraph ''C'') =
     Inr afterC \<and>
   gScore afterC ''B'' = Some (Num 20) \<and>
   heuristic (nodeMap_of detourNodes) nodeD ''B'' = Inr 0 \<and>
   openSet afterC = [(''D'', Num 50), (''B'', Num 100)] \<and>
   findAccessibleRoute detourGraph detourNodes ''A'' ''D'' wheelchairProfile =
     Some (Inr \<lparr>path = [''A'', ''D''], edges = [directAD], totalDistance = 50,
        totalWeight = Some (Num 50), issues = [], accessibilityScore = Some 100, notFound = None\<rparr>) \<and>
   jsnum_add (jsnum_add (calculateEdgeWeight shortAC wheelchairProfile)
        (calculateEdgeWeight shortCB wheelchairProfile))
     (calculateEdgeWeight shortBD wheelchairProfile) = Num 21"
proof -
  have steps:
    "relax_all (heuristic (nodeMap_of detourNodes) nodeD) wheelchairProfile ''A''
        ((initial_state ''A'' 0)\<lparr>openSet := []\<rparr>) (neighbors_of detourGraph ''A'') = Inr afterA \<and>
     sortByFScore (openSet afterA) = [(''C'', Num 10), (''D'', Num 50), (''B'', Num 100)] \<and>
     relax_all (heuristic (nodeMap_of detourNodes) nodeD) wheelchairProfile ''C''
        (afterA\<lparr>openSet := [(''D'', Num 50), (''B'', Num 100)]\<rparr>) (neighbors_of detourGraph ''C'') =
       Inr afterC \<and>
     gScore afterC ''B'' = Some (Num 20) \<and> openSet afterC = [(''D'', Num 50), (''B'', Num 100)]"
    by (simp add: detourGraph_neighbors relax_def Let_def detour_heuristic access_facts weight_facts
        detour_facts initial_state_def afterA_def afterC_def sortByFScore_def fScoreValue_def)
  have run: "findAccessibleRoute detourGraph detourNodes ''A'' ''D'' wheelchairProfile =
     Some (Inr \<lparr>path = [''A'', ''D''], edges = [directAD], totalDistance = 50,
        totalWeight = Some (Num 50), issues = [], accessibilityScore = Some 100, notFound = None\<rparr>)"
    by (simp add: findAccessibleRoute_def Let_def detour_nodeMap detour_heuristic
        astar_loop.simps detourGraph_neighbors relax_def access_facts weight_facts
        detour_facts sortByFScore_def fScoreValue_def detour_reconstruct)
  from steps run show ?thesis by (simp add: detour_heuristic detour_facts)
qed

section \<open>Termination on well-formed graphs\<close>

lemma finite_entries_on: "finite N \<Longrightarrow> finite (entries_on g N)"
  by (simp add: entries_on_def)

lemma finite_trail_costs: "finite N \<Longrightarrow> finite (trail_costs g N p)"
  unfolding trail_costs_def
  by (intro finite_imageI finite_subset_distinct finite_entries_on)

lemma jsnum_less_Num: "jsnum_less a b \<longleftrightarrow> (\<exists>x y. a = Num x \<and> b = Num y \<and> x < y)"
  by (cases a; cases b) simp_all

lemma jsnum_add_Num:
  "jsnum_add a b = Num z \<longleftrightarrow> (\<exists>x y. a = Num x \<and> b = Num y \<and> z = x + y)"
  by (cases a; cases b) auto

lemma precedes_trans:
  "precedes c k b m \<Longrightarrow> precedes b m a n \<Longrightarrow> precedes c k a n"
  by (cases a; cases b; cases c) (auto simp: precedes_def)

lemma precedes_irrefl: "\<not> precedes a n a n"
  by (cases a) (simp_all add: precedes_def)

lemma precedes_lower:
  "precedes (Num y) m a n \<Longrightarrow> tv < y \<Longrightarrow> precedes (Num tv) k a n"
  by (cases a) (auto simp: precedes_def)

lemma dominated_mono:
  assumes "\<And>v y. gs v = Some (Num y) \<Longrightarrow> \<exists>y'. gs' v = Some (Num y') \<and> y' \<le> y"
  shows "dominated gs p tr \<Longrightarrow> dominated gs' p tr"
proof (induction tr)
  case Nil
  then show ?case by simp
next
  case (Cons nb tr)
  then obtain y where y: "gs (to nb) = Some (Num y)" "y \<le> cost p (nb # tr)"
    and d: "dominated gs p tr"
    by auto
  from assms[OF y(1)] obtain y' where "gs' (to nb) = Some (Num y')" "y' \<le> y" by blast
  with y(2) Cons.IH[OF d] show ?case by auto
qed

lemma cost_nonneg: "(\<And>nb. nb \<in> set tr \<Longrightarrow> 0 \<le> wt p nb) \<Longrightarrow> 0 \<le> cost p tr"
  by (induction tr) (auto simp: cost_def)

lemma cost_Cons: "cost p (nb # tr) = wt p nb + cost p tr"
  by (simp add: cost_def)

lemma dominated_member:
  assumes "\<And>nb. nb \<in> set tr \<Longrightarrow> 0 \<le> wt p nb"
  shows "dominated gs p tr \<Longrightarrow> nb \<in> set tr \<Longrightarrow>
           \<exists>y. gs (to nb) = Some (Num y) \<and> y \<le> cost p tr"
  using assms
proof (induction tr)
  case Nil
  then show ?case by simp
next
  case (Cons a tr)
  show ?case
  proof (cases "nb = a")
    case True
    with Cons.prems(1) show ?thesis by auto
  next
    case False
    with Cons.prems have "nb \<in> set tr" "dominated gs p tr" by auto
    then obtain y where "gs (to nb) = Some (Num y)" "y \<le> cost p tr"
      using Cons.IH Cons.prems(3) by auto
    moreover have "0 \<le> wt p a" using Cons.prems(3) by simp
    ultimately show ?thesis by (auto simp: cost_Cons)
  qed
qed

lemma wt_nonneg:
  assumes "wellFormed g nodes" "nb \<in> entries_on g (node_id ` set nodes)"
  shows "0 \<le> wt p nb"
proof -
  from assms(2) obtain n where "n \<in> set nodes" "nb \<in> set (neighbors_of g (node_id n))"
    by (auto simp: entries_on_def)
  with assms(1) have "0 \<le> distance (edge nb)" by (auto simp: wellFormed_def)
  then show ?thesis using weight_value_nonneg[of "edge nb" p] by (simp add: wt_def)
qed

lemma to_in_nodes:
  assumes "wellFormed g nodes" "k \<in> node_id ` set nodes" "nb \<in> set (neighbors_of g k)"
  shows "to nb \<in> node_id ` set nodes"
  using assms by (auto simp: wellFormed_def)

lemma measure_decreases:
  assumes "finite N" "v \<in> N" "\<And>u. u \<noteq> v \<Longrightarrow> gScore st' u = gScore st u"
    and "node_rank W (gScore st') v < node_rank W (gScore st) v"
  shows "search_measure W N st' < search_measure W N st"
  unfolding search_measure_def
proof (rule sum_strict_mono_ex1)
  show "finite N" by fact
  show "\<forall>x\<in>N. node_rank W (gScore st') x \<le> node_rank W (gScore st) x"
  proof
    fix x assume "x \<in> N"
    show "node_rank W (gScore st') x \<le> node_rank W (gScore st) x"
    proof (cases "x = v")
      case True
      then show ?thesis using assms(4) by simp
    next
      case False
      then show ?thesis using assms(3) by (simp add: node_rank_def)
    qed
  qed
  show "\<exists>a\<in>N. node_rank W (gScore st') a < node_rank W (gScore st) a"
    using assms(2,4) by blast
qed

lemma rank_decreases:
  assumes "finite W" "t \<in> W" "gs v = None \<or> (\<exists>y. gs v = Some (Num y) \<and> t < y)"
  shows "node_rank W (gs(v \<mapsto> Num t)) v < node_rank W gs v"
proof (cases "gs v")
  case None
  have "card {w \<in> W. w < t} \<le> card W"
    using assms(1) by (intro card_mono) auto
  with None show ?thesis by (simp add: node_rank_def)
next
  case (Some a)
  with assms(3) obtain y where y: "a = Num y" "t < y" by auto
  have "{w \<in> W. w < t} \<subset> {w \<in> W. w < y}"
    using assms(2) y(2) by auto
  then have "card {w \<in> W. w < t} < card {w \<in> W. w < y}"
    using assms(1) by (intro psubset_card_mono) auto
  with Some y(1) show ?thesis by (simp add: node_rank_def)
qed

lemma rank_decreases_NaN:
  assumes "gs v = None"
  shows "node_rank W (gs(v \<mapsto> NaN)) v < node_rank W gs v"
  using assms by (simp add: node_rank_def)

lemma trail_start_empty:
  assumes "trail_ok g N p start gs tr start x"
  shows "tr = [] \<and> x = 0"
proof (cases tr)
  case Nil
  with assms show ?thesis by (simp add: trail_ok_def cost_def)
next
  case (Cons nb tr')
  with assms have "to nb = start" "start \<notin> to ` set tr" by (auto simp: trail_ok_def)
  with Cons show ?thesis by auto
qed

text \<open>On a well-formed graph a relaxation step raises nothing and keeps the invariant;
  it either leaves the state as it is or lowers the measure. A cost that is NaN is given
  only to a node that had no cost, and is never replaced.\<close>

lemma relax_inv:
  assumes wf: "wellFormed g nodes" and N: "N = node_id ` set nodes"
    and h: "\<And>k. k \<in> N \<Longrightarrow> \<exists>x. h k = Inr x"
    and inv: "search_inv g N p start T st"
    and cur: "cur \<in> N" "gScore st cur \<noteq> None"
    and nb: "nb \<in> set (neighbors_of g cur)"
  shows "\<exists>st' T'. relax h p cur st nb = Inr st' \<and> search_inv g N p start T' st' \<and>
           gScore st' cur \<noteq> None \<and>
           (st' = st \<or> search_measure (trail_costs g N p) N st' < search_measure (trail_costs g N p) N st)"
proof -
  obtain gc where gc: "gScore st cur = Some gc" using cur(2) by auto
  define v where "v = to nb"
  define t where "t = jsnum_add gc (calculateEdgeWeight (edge nb) p)"
  have nbE: "nb \<in> entries_on g N" using nb cur(1) by (auto simp: entries_on_def)
  have w0: "0 \<le> wt p nb" using wt_nonneg[OF wf nbE[unfolded N]] .
  have vN: "v \<in> N" using to_in_nodes[OF wf cur(1)[unfolded N] nb] by (simp add: N v_def)
  obtain hv where hv: "h v = Inr hv" using h[OF vN] by auto
  have finN: "finite N" by (simp add: N)
  show ?thesis
  proof (cases "isEdgeAccessible (edge nb) p \<and>
                (case gScore st v of None \<Rightarrow> True | Some g \<Rightarrow> jsnum_less t g)")
    case False
    then have "relax h p cur st nb = Inr st"
      by (auto simp: relax_def gc Let_def v_def t_def split: option.splits)
    then show ?thesis using inv cur by blast
  next
    case True
    then have upd: "gScore st v = None \<or>
        (\<exists>tv y. t = Num tv \<and> gScore st v = Some (Num y) \<and> tv < y)"
      by (auto simp: jsnum_less_Num split: option.splits)
    define gs' where "gs' = (gScore st)(v \<mapsto> t)"
    define st1 where "st1 = st\<lparr>cameFrom := (cameFrom st)(v \<mapsto> cur),
                                 edgeUsed := (edgeUsed st)(v \<mapsto> edge nb),
                                 gScore := gs'\<rparr>"
    define st' where "st' = (if find (\<lambda>n. fst n = v) (openSet st1) = None
                             then st1\<lparr>openSet := openSet st1 @ [(v, jsnum_add t (Num hv))]\<rparr>
                             else st1)"
    have r: "relax h p cur st nb = Inr st'"
      using True
      by (simp add: relax_def gc Let_def hv st'_def st1_def gs'_def v_def[symmetric] t_def[symmetric])
    have g': "gScore st' = gs'" and c': "cameFrom st' = (cameFrom st)(v \<mapsto> cur)"
      and e': "edgeUsed st' = (edgeUsed st)(v \<mapsto> edge nb)"
      and o': "set (openSet st') \<subseteq> set (openSet st) \<union> {(v, jsnum_add t (Num hv))}"
      by (auto simp: st'_def st1_def)
    define T' where "T' = T(v := nb # T cur)"
    obtain x0 where x0: "gScore st start = Some (Num x0)"
      using inv by (auto simp: search_inv_def)
    have mono: "\<And>u y. gScore st u = Some (Num y) \<Longrightarrow> \<exists>y'. gs' u = Some (Num y') \<and> y' \<le> y"
      using upd by (auto simp: gs'_def)
    have num: "v \<noteq> start \<and> v \<noteq> cur \<and> trail_ok g N p start gs' (nb # T cur) v tv \<and>
               precedes gc (length (T cur)) t (length (nb # T cur)) \<and>
               tv \<in> trail_costs g N p \<and>
               (gScore st v = None \<or> (\<exists>y. gScore st v = Some (Num y) \<and> tv < y))"
      if tv: "t = Num tv" for tv
    proof -
      from tv obtain c w where cw: "gc = Num c" "calculateEdgeWeight (edge nb) p = Num w"
        "tv = c + w"
        unfolding t_def by (auto simp: jsnum_add_Num)
      have wtw: "wt p nb = w" by (simp add: wt_def cw(2))
      have updn: "gScore st v = None \<or> (\<exists>y. gScore st v = Some (Num y) \<and> tv < y)"
        using upd tv by auto
      have trc: "trail_ok g N p start (gScore st) (T cur) cur c"
        using inv gc cw(1) by (simp add: search_inv_def)
      then have tr_sub: "set (T cur) \<subseteq> entries_on g N" and tr_dist: "distinct (map to (T cur))"
        and tr_start: "start \<notin> to ` set (T cur)"
        and tr_end: "(case T cur of [] \<Rightarrow> cur = start | nb # _ \<Rightarrow> to nb = cur)"
        and tr_cost: "c = cost p (T cur)" and tr_dom: "dominated (gScore st) p (T cur)"
        by (simp_all add: trail_ok_def)
      have tr_nonneg: "\<And>x. x \<in> set (T cur) \<Longrightarrow> 0 \<le> wt p x"
        using tr_sub wt_nonneg[OF wf] unfolding N by blast
      have c0: "0 \<le> c" using cost_nonneg[of "T cur" p] tr_nonneg tr_cost by simp
      have t_ge: "c \<le> tv" using w0 by (simp add: cw(3) wtw)
      have t_cost: "tv = cost p (nb # T cur)" by (simp add: cw(3) cost_Cons wtw tr_cost)
      have v_fresh: "v \<notin> to ` set (T cur)"
      proof
        assume "v \<in> to ` set (T cur)"
        then obtain x where x: "x \<in> set (T cur)" "to x = v" by auto
        from dominated_member[OF tr_nonneg tr_dom x(1)] obtain y
          where "gScore st v = Some (Num y)" "y \<le> c" by (auto simp: x(2) tr_cost)
        with updn t_ge show False by auto
      qed
      have v_start: "v \<noteq> start"
      proof
        assume vs: "v = start"
        from inv x0 have "trail_ok g N p start (gScore st) (T start) start x0"
          by (simp add: search_inv_def)
        then have "x0 = 0" using trail_start_empty by blast
        with updn vs x0 c0 t_ge show False by auto
      qed
      have v_cur: "v \<noteq> cur"
      proof (cases "T cur")
        case Nil
        with tr_end v_start show ?thesis by simp
      next
        case (Cons a tr)
        with tr_end have "cur \<in> to ` set (T cur)" by auto
        with v_fresh show ?thesis by auto
      qed
      have new_trail: "trail_ok g N p start gs' (nb # T cur) v tv"
        unfolding trail_ok_def
      proof (intro conjI)
        show "set (nb # T cur) \<subseteq> entries_on g N" using nbE tr_sub by simp
        show "distinct (map to (nb # T cur))" using tr_dist v_fresh by (simp add: v_def)
        show "start \<notin> to ` set (nb # T cur)" using tr_start v_start by (simp add: v_def)
        show "case nb # T cur of [] \<Rightarrow> v = start | nb # x \<Rightarrow> to nb = v" by (simp add: v_def)
        show "tv = cost p (nb # T cur)" by (rule t_cost)
        have "dominated gs' p (T cur)" using dominated_mono[OF mono tr_dom] .
        then show "dominated gs' p (nb # T cur)"
          by (simp add: gs'_def v_def[symmetric] t_cost tv)
      qed
      have "precedes gc (length (T cur)) t (length (nb # T cur))"
        using t_ge by (auto simp: precedes_def cw(1) tv)
      moreover have "tv \<in> trail_costs g N p"
      proof -
        have "distinct (nb # T cur)" using new_trail by (auto simp: trail_ok_def distinct_map)
        moreover have "set (nb # T cur) \<subseteq> entries_on g N"
          using new_trail by (simp add: trail_ok_def)
        ultimately show ?thesis unfolding trail_costs_def using t_cost by blast
      qed
      ultimately show ?thesis using v_start v_cur new_trail updn by blast
    qed
    have nan: "v \<noteq> start \<and> v \<noteq> cur \<and> precedes gc (length (T cur)) t (length (nb # T cur)) \<and>
               gScore st v = None"
      if "t = NaN"
    proof -
      from upd that have n: "gScore st v = None" by auto
      with x0 gc have "v \<noteq> start" "v \<noteq> cur" by auto
      moreover have "precedes gc (length (T cur)) NaN (length (nb # T cur))"
        by (cases gc) (simp_all add: precedes_def)
      ultimately show ?thesis using that n by simp
    qed
    have v_start: "v \<noteq> start" using num nan by (cases t) blast+
    have v_cur: "v \<noteq> cur" using num nan by (cases t) blast+
    have prec: "precedes gc (length (T cur)) t (length (nb # T cur))"
      using num nan by (cases t) blast+
    have inv1: "\<forall>u x. gScore st' u = Some (Num x) \<longrightarrow>
                  trail_ok g N p start (gScore st') (T' u) u x"
    proof (intro allI impI)
      fix u x assume ux: "gScore st' u = Some (Num x)"
      show "trail_ok g N p start (gScore st') (T' u) u x"
      proof (cases "u = v")
        case True
        with ux have "t = Num x" by (simp add: g' gs'_def)
        with True num show ?thesis by (simp add: g' T'_def)
      next
        case False
        with ux have old: "gScore st u = Some (Num x)" by (simp add: g' gs'_def)
        with inv have "trail_ok g N p start (gScore st) (T u) u x" by (simp add: search_inv_def)
        then have "trail_ok g N p start gs' (T u) u x"
          using dominated_mono[OF mono] by (auto simp: trail_ok_def)
        with False show ?thesis by (simp add: g' T'_def)
      qed
    qed
    have inv2: "\<forall>c u. cameFrom st' c = Some u \<longrightarrow> c \<in> N \<and> edgeUsed st' c \<noteq> None \<and>
        (\<exists>a b. gScore st' c = Some a \<and> gScore st' u = Some b \<and>
           precedes b (length (T' u)) a (length (T' c)))"
    proof (intro allI impI)
      fix c u assume cu: "cameFrom st' c = Some u"
      show "c \<in> N \<and> edgeUsed st' c \<noteq> None \<and>
        (\<exists>a b. gScore st' c = Some a \<and> gScore st' u = Some b \<and>
           precedes b (length (T' u)) a (length (T' c)))"
      proof (cases "c = v")
        case True
        with cu have u: "u = cur" by (simp add: c')
        have "gScore st' v = Some t" "gScore st' cur = Some gc"
          using v_cur gc by (simp_all add: g' gs'_def)
        moreover have "precedes gc (length (T' cur)) t (length (T' v))"
          using prec v_cur by (simp add: T'_def)
        ultimately show ?thesis using True u vN by (auto simp: e')
      next
        case False
        with cu have old: "cameFrom st c = Some u" by (simp add: c')
        with inv obtain a b where ab: "c \<in> N" "edgeUsed st c \<noteq> None" "gScore st c = Some a"
          "gScore st u = Some b" "precedes b (length (T u)) a (length (T c))"
          unfolding search_inv_def by blast
        show ?thesis
        proof (cases "u = v")
          case True
          with ab(4) upd obtain tv y where ty: "t = Num tv" "b = Num y" "tv < y" by auto
          from precedes_lower[OF ab(5)[unfolded ty(2)] ty(3)]
          have "precedes (Num tv) (length (T' u)) a (length (T c))" .
          then show ?thesis using ab False True ty(1) by (auto simp: g' gs'_def e' T'_def)
        next
          case uv: False
          then show ?thesis using ab False by (auto simp: g' gs'_def e' T'_def)
        qed
      qed
    qed
    have inv3: "\<forall>e \<in> set (openSet st'). fst e \<in> N \<and> gScore st' (fst e) \<noteq> None"
    proof
      fix e assume "e \<in> set (openSet st')"
      with o' have "e \<in> set (openSet st) \<or> e = (v, jsnum_add t (Num hv))" by auto
      then show "fst e \<in> N \<and> gScore st' (fst e) \<noteq> None"
        using inv vN by (auto simp: search_inv_def g' gs'_def)
    qed
    have inv4: "\<exists>x. gScore st' start = Some (Num x)" "gScore st' cur \<noteq> None"
      using x0 gc v_start by (auto simp: g' gs'_def)
    have "node_rank (trail_costs g N p) (gScore st') v < node_rank (trail_costs g N p) (gScore st) v"
    proof (cases t)
      case (Num tv)
      with num have "tv \<in> trail_costs g N p"
        "gScore st v = None \<or> (\<exists>y. gScore st v = Some (Num y) \<and> tv < y)" by blast+
      from rank_decreases[of "trail_costs g N p" tv "gScore st" v, OF finite_trail_costs[OF finN] this]
      show ?thesis by (simp add: g' gs'_def Num)
    next
      case NaN
      with nan have "gScore st v = None" by blast
      from rank_decreases_NaN[of "gScore st" v "trail_costs g N p", OF this]
      show ?thesis by (simp add: g' gs'_def NaN)
    qed
    moreover have "\<And>u. u \<noteq> v \<Longrightarrow> gScore st' u = gScore st u" by (simp add: g' gs'_def)
    ultimately have "search_measure (trail_costs g N p) N st' < search_measure (trail_costs g N p) N st"
      using measure_decreases[OF finN vN] by blast
    moreover have "search_inv g N p start T' st'"
      unfolding search_inv_def using inv1 inv2 inv3 inv4(1) by blast
    ultimately show ?thesis using r inv4(2) by blast
  qed
qed

lemma relax_all_inv:
  assumes wf: "wellFormed g nodes" and N: "N = node_id ` set nodes"
    and h: "\<And>k. k \<in> N \<Longrightarrow> \<exists>x. h k = Inr x"
    and cur: "cur \<in> N"
  shows "search_inv g N p start T st \<Longrightarrow> gScore st cur \<noteq> None \<Longrightarrow>
         set nbs \<subseteq> set (neighbors_of g cur) \<Longrightarrow>
         \<exists>st' T'. relax_all h p cur st nbs = Inr st' \<and> search_inv g N p start T' st' \<and>
           (st' = st \<or> search_measure (trail_costs g N p) N st' < search_measure (trail_costs g N p) N st)"
proof (induction nbs arbitrary: st T)
  case Nil
  then show ?case by auto
next
  case (Cons nb nbs)
  from Cons.prems(3) have nb: "nb \<in> set (neighbors_of g cur)" and rest: "set nbs \<subseteq> set (neighbors_of g cur)"
    by auto
  from relax_inv[of g nodes N h p start T st cur nb, OF wf N h Cons.prems(1) cur Cons.prems(2) nb]
  obtain st1 T1 where 1: "relax h p cur st nb = Inr st1" "search_inv g N p start T1 st1"
    "gScore st1 cur \<noteq> None"
    "st1 = st \<or> search_measure (trail_costs g N p) N st1 < search_measure (trail_costs g N p) N st"
    by blast
  from Cons.IH[OF 1(2) 1(3) rest]
  obtain st2 T2 where 2: "relax_all h p cur st1 nbs = Inr st2" "search_inv g N p start T2 st2"
    "st2 = st1 \<or> search_measure (trail_costs g N p) N st2 < search_measure (trail_costs g N p) N st1"
    by blast
  have "relax_all h p cur st (nb # nbs) = Inr st2" using 1(1) 2(1) by simp
  moreover have "st2 = st \<or> search_measure (trail_costs g N p) N st2 < search_measure (trail_costs g N p) N st"
    using 1(4) 2(3) by auto
  ultimately show ?case using 2(2) by blast
qed

text \<open>Under the invariant the back-pointers are well-founded, so the backward walk of
  the reconstruction ends, and each of its steps finds an edge.\<close>

lemma cameFrom_wf:
  assumes finN: "finite N" and inv: "search_inv g N p start T st"
  shows "wf {(u, v). cameFrom st v = Some u}"
proof (rule finite_acyclic_wf)
  let ?R = "{(u, v). cameFrom st v = Some u}"
  let ?L = "{(u, v). \<exists>a b. gScore st v = Some a \<and> gScore st u = Some b \<and>
               precedes b (length (T u)) a (length (T v))}"
  have "?R \<subseteq> (\<lambda>v. (the (cameFrom st v), v)) ` N"
    using inv by (force simp: search_inv_def)
  then show "finite ?R" using finN by (meson finite_imageI finite_subset)
  have RL: "?R \<subseteq> ?L" using inv unfolding search_inv_def by blast
  have "trans ?L"
  proof (rule transI)
    fix x y z assume "(x, y) \<in> ?L" "(y, z) \<in> ?L"
    then obtain a b c where "gScore st z = Some a" "gScore st y = Some b" "gScore st x = Some c"
      "precedes c (length (T x)) b (length (T y))" "precedes b (length (T y)) a (length (T z))"
      by auto
    then show "(x, z) \<in> ?L" using precedes_trans by blast
  qed
  then have "?L\<^sup>+ = ?L" by (rule trancl_id)
  moreover have "?R\<^sup>+ \<subseteq> ?L\<^sup>+" using RL by (rule trancl_mono_subset)
  ultimately have "?R\<^sup>+ \<subseteq> ?L" by simp
  moreover have "\<And>x. (x, x) \<notin> ?L" by (auto simp: precedes_irrefl)
  ultimately show "acyclic ?R" unfolding acyclic_def by blast
qed

lemma reconstruct_loop_total:
  assumes finN: "finite N" and inv: "search_inv g N p start T st"
  shows "\<exists>w'. reconstruct_loop (cameFrom st) (edgeUsed st) p w = Some (Inr w')"
proof -
  have "\<forall>w::walk. w_current w = c \<longrightarrow>
          (\<exists>w'. reconstruct_loop (cameFrom st) (edgeUsed st) p w = Some (Inr w'))" for c
  proof (induction c rule: wf_induct_rule[OF cameFrom_wf[OF finN inv]])
    case (1 c)
    show ?case
    proof (intro allI impI)
      fix w :: walk assume wc: "w_current w = c"
      show "\<exists>w'. reconstruct_loop (cameFrom st) (edgeUsed st) p w = Some (Inr w')"
      proof (cases "cameFrom st c")
        case None
        then show ?thesis by (subst reconstruct_loop.simps) (simp add: wc)
      next
        case (Some prev)
        with inv obtain e where e: "edgeUsed st c = Some e"
          unfolding search_inv_def by blast
        let ?w = "\<lparr>w_path = prev # w_path w, w_edges = e # w_edges w,
                   w_issues = w_issues w @ edge_issues e p, w_current = prev,
                   w_totalDistance = w_totalDistance w + distance e\<rparr>"
        have "(prev, c) \<in> {(u, v). cameFrom st v = Some u}" using Some by simp
        from 1[OF this] have "\<exists>w'. reconstruct_loop (cameFrom st) (edgeUsed st) p ?w = Some (Inr w')"
          by simp
        then show ?thesis by (subst reconstruct_loop.simps) (simp add: wc Some e)
      qed
    qed
  qed
  then show ?thesis by blast
qed

lemma reconstructPath_total:
  assumes "finite N" and "search_inv g N p start T st"
  shows "\<exists>r. reconstructPath (cameFrom st) (edgeUsed st) endId tw p = Some (Inr r)"
proof -
  from reconstruct_loop_total[OF assms] obtain w' where
    "reconstruct_loop (cameFrom st) (edgeUsed st) p
       \<lparr>w_path = [endId], w_edges = [], w_issues = [], w_current = endId, w_totalDistance = 0\<rparr>
     = Some (Inr w')" by blast
  then show ?thesis by (simp add: reconstructPath_def)
qed

text \<open>Whatever the order, the sorted open set is a rearrangement of the open set.\<close>

lemma engineSort_mset: "mset (engineSort xs) = mset xs"
proof -
  have "\<exists>f :: (nodeId \<times> jsnum) list \<Rightarrow> (nodeId \<times> jsnum) list. \<forall>xs. mset (f xs) = mset xs"
    by (rule exI[of _ id]) simp
  then have "\<forall>xs. mset (engineSort xs) = mset xs"
    unfolding engineSort_def by (rule someI_ex)
  then show ?thesis by blast
qed

lemma sortByFScore_mset: "mset (sortByFScore xs) = mset xs"
  by (simp add: sortByFScore_def engineSort_mset)

lemma sortByFScore_set: "set (sortByFScore xs) = set xs"
  using sortByFScore_mset[of xs] by (rule mset_eq_setD)

lemma sortByFScore_length: "length (sortByFScore xs) = length xs"
  using sortByFScore_mset[of xs] by (rule mset_eq_length)

lemma astar_loop_unfold:
  assumes "openSet st \<noteq> []"
  shows "astar_loop h g endId p st =
     (if fst (hd (sortByFScore (openSet st))) = endId
      then (case gScore st endId of
              None \<Rightarrow> Some (Inl UndefinedArithmetic)
            | Some tw \<Rightarrow> reconstructPath (cameFrom st) (edgeUsed st) endId tw p)
      else (case relax_all h p (fst (hd (sortByFScore (openSet st))))
                   (st\<lparr>openSet := tl (sortByFScore (openSet st))\<rparr>)
                   (neighbors_of g (fst (hd (sortByFScore (openSet st))))) of
              Inl err \<Rightarrow> Some (Inl err)
            | Inr st' \<Rightarrow> astar_loop h g endId p st'))"
  by (subst astar_loop.simps) (auto simp: assms Let_def split: option.splits)

lemma sorted_open_facts:
  assumes "openSet st \<noteq> []"
  shows "hd (sortByFScore (openSet st)) \<in> set (openSet st)"
    and "set (tl (sortByFScore (openSet st))) \<subseteq> set (openSet st)"
    and "length (tl (sortByFScore (openSet st))) < length (openSet st)"
proof -
  let ?s = "sortByFScore (openSet st)"
  have sset: "set ?s = set (openSet st)" and slen: "length ?s = length (openSet st)"
    by (simp_all add: sortByFScore_set sortByFScore_length)
  have sne: "?s \<noteq> []" using assms slen by (metis length_0_conv)
  have "hd ?s \<in> set ?s" using sne by (rule hd_in_set)
  then show "hd ?s \<in> set (openSet st)" by (simp only: sset)
  have "set (tl ?s) \<subseteq> set ?s" by (cases ?s) auto
  then show "set (tl ?s) \<subseteq> set (openSet st)" by (simp only: sset)
  show "length (tl ?s) < length (openSet st)" using assms slen by simp
qed

lemma search_inv_openSet:
  assumes "search_inv g N p start T st" "set os \<subseteq> set (openSet st)"
  shows "search_inv g N p start T (st\<lparr>openSet := os\<rparr>)"
  using assms unfolding search_inv_def by auto

text \<open>The loop returns a result from every state that satisfies the invariant: each
  round lowers the measure or, the costs unchanged, shortens the open set.\<close>

lemma astar_loop_total:
  assumes wf: "wellFormed g nodes" and N: "N = node_id ` set nodes"
    and h: "\<And>k. k \<in> N \<Longrightarrow> \<exists>x. h k = Inr x"
  shows "search_inv g N p start T st \<Longrightarrow> \<exists>r. astar_loop h g endId p st = Some (Inr r)"
proof (induction "(search_measure (trail_costs g N p) N st, length (openSet st))"
       arbitrary: st T rule: wf_induct_rule[OF wf_lex_prod[OF wf_less_than wf_less_than]])
  case (1 st T)
  have finN: "finite N" by (simp add: N)
  show ?case
  proof (cases "openSet st = []")
    case True
    then show ?thesis by (subst astar_loop.simps) simp
  next
    case False
    define current where "current = hd (sortByFScore (openSet st))"
    define st1 where "st1 = st\<lparr>openSet := tl (sortByFScore (openSet st))\<rparr>"
    note facts = sorted_open_facts[OF False]
    have inv1: "search_inv g N p start T st1"
      unfolding st1_def using "1.prems" facts(2) by (rule search_inv_openSet)
    have "\<forall>e \<in> set (openSet st). fst e \<in> N \<and> gScore st (fst e) \<noteq> None"
      using "1.prems" by (simp add: search_inv_def)
    with facts(1) have curN: "fst current \<in> N" and curg: "gScore st (fst current) \<noteq> None"
      unfolding current_def by blast+
    have curg1: "gScore st1 (fst current) \<noteq> None" using curg by (simp add: st1_def)
    have m1: "search_measure (trail_costs g N p) N st1 = search_measure (trail_costs g N p) N st"
      by (simp add: search_measure_def st1_def)
    have l1: "length (openSet st1) < length (openSet st)"
      using facts(3) by (simp add: st1_def)
    note unfold = astar_loop_unfold[OF False, of h g endId p, folded current_def st1_def]
    show ?thesis
    proof (cases "fst current = endId")
      case True
      with curg obtain tw where tw: "gScore st endId = Some tw" by auto
      from reconstructPath_total[OF finN "1.prems", of endId tw] obtain r where
        "reconstructPath (cameFrom st) (edgeUsed st) endId tw p = Some (Inr r)" by blast
      then have "astar_loop h g endId p st = Some (Inr r)"
        by (simp add: unfold True tw)
      then show ?thesis by blast
    next
      case ne: False
      from relax_all_inv[of g nodes N h "fst current" p start T st1 "neighbors_of g (fst current)",
          OF wf N h curN inv1 curg1 subset_refl]
      obtain st' T' where s: "relax_all h p (fst current) st1 (neighbors_of g (fst current)) = Inr st'"
        "search_inv g N p start T' st'"
        "st' = st1 \<or> search_measure (trail_costs g N p) N st' < search_measure (trail_costs g N p) N st1"
        by blast
      have "((search_measure (trail_costs g N p) N st', length (openSet st')),
             (search_measure (trail_costs g N p) N st, length (openSet st))) \<in> less_than <*lex*> less_than"
        using s(3) m1 l1 by auto
      from "1.hyps"[OF this s(2)] obtain r where "astar_loop h g endId p st' = Some (Inr r)"
        by blast
      then have "astar_loop h g endId p st = Some (Inr r)"
        by (simp add: unfold ne s(1))
      then show ?thesis by blast
    qed
  qed
qed

lemma initial_search_inv:
  assumes "s \<in> N"
  shows "search_inv g N p s (\<lambda>_. []) (initial_state s h0)"
  using assms by (auto simp: search_inv_def initial_state_def trail_ok_def cost_def split: if_splits)

lemma heuristic_total:
  assumes "k \<in> node_id ` set nodes"
  shows "\<exists>x. heuristic (nodeMap_of nodes) endNode k = Inr x"
proof -
  from assms obtain n where "nodeMap_of nodes k = Some n"
    using nodeMap_of_None[of nodes k] by (cases "nodeMap_of nodes k") auto
  then show ?thesis by (simp add: heuristic_def)
qed

lemma findAccessibleRoute_unfold:
  assumes "nodeMap_of nodes s = Some sn" "nodeMap_of nodes e = Some en"
  shows "findAccessibleRoute g nodes s e p =
     astar_loop (heuristic (nodeMap_of nodes) en) g e p
       (initial_state s (calculateDistance (lat sn) (lng sn) (lat en) (lng en)))"
  using assms by (simp add: findAccessibleRoute_def Let_def heuristic_def initial_state_def)

lemma findAccessibleRoute_missing:
  assumes "s \<notin> node_id ` set nodes \<or> e \<notin> node_id ` set nodes"
  shows "findAccessibleRoute g nodes s e p = Some (Inr failureResult)"
proof -
  from assms have "nodeMap_of nodes s = None \<or> nodeMap_of nodes e = None"
    by (simp add: nodeMap_of_None)
  then show ?thesis
    by (auto simp: findAccessibleRoute_def Let_def split: option.splits)
qed

lemma findAccessibleRoute_total:
  assumes wf: "wellFormed g nodes"
  shows "\<exists>r. findAccessibleRoute g nodes s e p = Some (Inr r)"
proof (cases "s \<in> node_id ` set nodes \<and> e \<in> node_id ` set nodes")
  case False
  then show ?thesis using findAccessibleRoute_missing[of s nodes e g p] by blast
next
  case True
  then obtain sn en where n: "nodeMap_of nodes s = Some sn" "nodeMap_of nodes e = Some en"
    using nodeMap_of_None[of nodes s] nodeMap_of_None[of nodes e]
    by (cases "nodeMap_of nodes s"; cases "nodeMap_of nodes e") auto
  define N where "N = node_id ` set nodes"
  have h: "\<And>k. k \<in> N \<Longrightarrow> \<exists>x. heuristic (nodeMap_of nodes) en k = Inr x"
    unfolding N_def by (rule heuristic_total)
  have "s \<in> N" using True by (simp add: N_def)
  then have inv: "search_inv g N p s (\<lambda>_. [])
     (initial_state s (calculateDistance (lat sn) (lng sn) (lat en) (lng en)))"
    by (rule initial_search_inv)
  from astar_loop_total[of g nodes N "heuristic (nodeMap_of nodes) en" p s _ _ e, OF wf N_def h inv]
  show ?thesis by (simp add: findAccessibleRoute_unfold[OF n])
qed

section \<open>What a returned result satisfies\<close>

lemma relax_edgeUsed_accessible:
  assumes "relax h p cur st nb = Inr st'"
    and "\<forall>v e. edgeUsed st v = Some e \<longrightarrow> isEdgeAccessible e p"
  shows "\<forall>v e. edgeUsed st' v = Some e \<longrightarrow> isEdgeAccessible e p"
  using assms
  by (auto simp: relax_def Let_def split: if_splits option.splits sum.splits)

lemma relax_all_edgeUsed_accessible:
  "relax_all h p cur st nbs = Inr st' \<Longrightarrow>
   \<forall>v e. edgeUsed st v = Some e \<longrightarrow> isEdgeAccessible e p \<Longrightarrow>
   \<forall>v e. edgeUsed st' v = Some e \<longrightarrow> isEdgeAccessible e p"
proof (induction nbs arbitrary: st)
  case Nil
  then show ?case by simp
next
  case (Cons nb nbs)
  from Cons.prems(1) obtain st1 where 1: "relax h p cur st nb = Inr st1"
    "relax_all h p cur st1 nbs = Inr st'"
    by (auto split: sum.splits)
  from relax_edgeUsed_accessible[OF 1(1) Cons.prems(2)] Cons.IH[OF 1(2)] show ?case by blast
qed

lemma reconstruct_loop_edges_aux:
  "reconstruct_loop cfrom eused p w = Some y \<Longrightarrow>
   (\<forall>v e. eused v = Some e \<longrightarrow> Q e) \<Longrightarrow> (\<forall>x \<in> set (w_edges w). Q x) \<Longrightarrow>
   y = Inr w' \<Longrightarrow> (\<forall>x \<in> set (w_edges w'). Q x)"
proof (induction arbitrary: w' rule: reconstruct_loop.raw_induct[rotated 1, consumes 1])
  case (1 reconstruct_loop cfrom eused p w y)
  show ?case
  proof (cases "cfrom (w_current w)")
    case None
    with 1 show ?thesis by simp
  next
    case (Some prev)
    show ?thesis
    proof (cases "eused (w_current w)")
      case None
      with Some 1 show ?thesis by simp
    next
      case (Some e)
      let ?w = "\<lparr>w_path = prev # w_path w, w_edges = e # w_edges w,
                 w_issues = w_issues w @ edge_issues e p, w_current = prev,
                 w_totalDistance = w_totalDistance w + distance e\<rparr>"
      from 1(3) Some have "Q e" by blast
      with 1(4) have q: "\<forall>x \<in> set (w_edges ?w). Q x" by simp
      have step: "reconstruct_loop cfrom eused p ?w = Some y"
        using 1(2) \<open>cfrom (w_current w) = Some prev\<close> Some by simp
      from 1(1)[OF step 1(3) q 1(5)] show ?thesis .
    qed
  qed
qed

lemma reconstructPath_edges:
  assumes "reconstructPath cfrom eused endId tw p = Some (Inr r)"
    and "\<forall>v e. eused v = Some e \<longrightarrow> Q e"
  shows "\<forall>x \<in> set (edges r). Q x"
proof -
  from assms(1) obtain w' where w: "reconstruct_loop cfrom eused p
       \<lparr>w_path = [endId], w_edges = [], w_issues = [], w_current = endId, w_totalDistance = 0\<rparr>
     = Some (Inr w')" and r: "edges r = w_edges w'"
    by (auto simp: reconstructPath_def split: option.splits sum.splits)
  from reconstruct_loop_edges_aux[OF w assms(2) _ refl] show ?thesis by (simp add: r)
qed

lemma reconstruct_loop_path_nonempty_aux:
  "reconstruct_loop cfrom eused p w = Some y \<Longrightarrow> w_path w \<noteq> [] \<Longrightarrow> y = Inr w' \<Longrightarrow>
     w_path w' \<noteq> []"
proof (induction arbitrary: w' rule: reconstruct_loop.raw_induct[rotated 1, consumes 1])
  case (1 reconstruct_loop cfrom eused p w y)
  then show ?case
    by (auto split: option.splits)
qed

lemma reconstructPath_path_nonempty:
  "reconstructPath cfrom eused endId tw p = Some (Inr r) \<Longrightarrow> path r \<noteq> []"
  by (auto simp: reconstructPath_def split: option.splits sum.splits
      dest: reconstruct_loop_path_nonempty_aux)

text \<open>The invariant that needs no assumption on the graph is kept by every step that
  returns a state, and no step stops for want of a best-known cost.\<close>

lemma relax_partial_inv:
  assumes inv: "partial_inv g p s e st"
    and cur: "(s, cur) \<in> (acc_step g p)\<^sup>*" "gScore st cur \<noteq> None"
    and nb: "nb \<in> set (neighbors_of g cur)"
    and h: "\<And>k. h k \<noteq> Inl UndefinedArithmetic"
  shows "relax h p cur st nb \<noteq> Inl UndefinedArithmetic \<and>
         (\<forall>st'. relax h p cur st nb = Inr st' \<longrightarrow>
            partial_inv g p s e st' \<and> gScore st' cur \<noteq> None)"
proof (cases "isEdgeAccessible (edge nb) p")
  case False
  then show ?thesis using inv cur by (simp add: relax_def)
next
  case True
  obtain gc where gc: "gScore st cur = Some gc" using cur(2) by auto
  define t where "t = jsnum_add gc (calculateEdgeWeight (edge nb) p)"
  from True nb have "(cur, to nb) \<in> acc_step g p" by (auto simp: acc_step_def)
  with cur(1) have reach: "(s, to nb) \<in> (acc_step g p)\<^sup>*" by (rule rtrancl_into_rtrancl)
  show ?thesis
  proof (cases "case gScore st (to nb) of None \<Rightarrow> True | Some g \<Rightarrow> jsnum_less t g")
    case False
    then have "relax h p cur st nb = Inr st"
      by (auto simp: relax_def True gc Let_def t_def split: option.splits)
    then show ?thesis using inv cur by simp
  next
    case upd: True
    show ?thesis
    proof (cases "h (to nb)")
      case (Inl err)
      then have "relax h p cur st nb = Inl err"
        using upd by (auto simp: relax_def True gc Let_def t_def split: option.splits)
      moreover have "err \<noteq> UndefinedArithmetic" using h[of "to nb"] Inl by auto
      ultimately show ?thesis by simp
    next
      case (Inr hv)
      define st1 where "st1 = st\<lparr>cameFrom := (cameFrom st)(to nb \<mapsto> cur),
          edgeUsed := (edgeUsed st)(to nb \<mapsto> edge nb),
          gScore := (gScore st)(to nb \<mapsto> t)\<rparr>"
      define st' where "st' = (if find (\<lambda>n. fst n = to nb) (openSet st1) = None
          then st1\<lparr>openSet := openSet st1 @ [(to nb, jsnum_add t (Num hv))]\<rparr>
          else st1)"
      have r: "relax h p cur st nb = Inr st'"
        using upd by (auto simp: relax_def True gc Let_def Inr st'_def st1_def t_def split: option.splits)
      have 1: "\<forall>v x. edgeUsed st' v = Some x \<longrightarrow> isEdgeAccessible x p"
        using inv True by (auto simp: partial_inv_def st'_def st1_def)
      have 2: "\<forall>x \<in> set (openSet st'). (s, fst x) \<in> (acc_step g p)\<^sup>* \<and> gScore st' (fst x) \<noteq> None"
        using inv reach by (auto simp: partial_inv_def st'_def st1_def)
      have 3: "gScore st' cur \<noteq> None" "gScore st' s \<noteq> None"
        using gc inv by (auto simp: partial_inv_def st'_def st1_def)
      have 4: "gScore st' e \<noteq> None \<longrightarrow> e \<in> fst ` set (openSet st')"
      proof (cases "e = to nb")
        case True
        then show ?thesis by (auto simp: st'_def find_None_fst)
      next
        case False
        then show ?thesis using inv by (auto simp: partial_inv_def st'_def st1_def)
      qed
      show ?thesis using r 1 2 3 4 by (simp add: partial_inv_def)
    qed
  qed
qed

lemma relax_all_partial_inv:
  assumes cur: "(s, cur) \<in> (acc_step g p)\<^sup>*" and h: "\<And>k. h k \<noteq> Inl UndefinedArithmetic"
  shows "partial_inv g p s e st \<Longrightarrow> gScore st cur \<noteq> None \<Longrightarrow>
         set nbs \<subseteq> set (neighbors_of g cur) \<Longrightarrow>
         relax_all h p cur st nbs \<noteq> Inl UndefinedArithmetic \<and>
         (\<forall>st'. relax_all h p cur st nbs = Inr st' \<longrightarrow> partial_inv g p s e st')"
proof (induction nbs arbitrary: st)
  case Nil
  then show ?case by simp
next
  case (Cons nb nbs)
  from Cons.prems(3) have nb: "nb \<in> set (neighbors_of g cur)"
    and rest: "set nbs \<subseteq> set (neighbors_of g cur)"
    by auto
  note step = relax_partial_inv[of g p s e st cur nb h, OF Cons.prems(1) cur Cons.prems(2) nb h]
  show ?case
  proof (cases "relax h p cur st nb")
    case (Inl err)
    with step show ?thesis by simp
  next
    case (Inr st1)
    with step have "partial_inv g p s e st1" "gScore st1 cur \<noteq> None" by auto
    from Cons.IH[OF this rest] show ?thesis by (simp add: Inr)
  qed
qed

text \<open>A step never takes a cost or an open-set entry away, a node that gets its first
  cost is in the open set afterwards, and after the step the target of an entry whose
  edge passes the gate has a cost.\<close>

lemma grows_to_refl: "grows_to st st"
  by (simp add: grows_to_def)

lemma grows_to_trans: "grows_to st st1 \<Longrightarrow> grows_to st1 st2 \<Longrightarrow> grows_to st st2"
  unfolding grows_to_def by blast

lemma relax_grows:
  assumes "relax h p cur st nb = Inr st'"
  shows "grows_to st st' \<and> (isEdgeAccessible (edge nb) p \<longrightarrow> gScore st' (to nb) \<noteq> None)"
proof (cases "isEdgeAccessible (edge nb) p")
  case False
  with assms have "st' = st" by (simp add: relax_def)
  with False show ?thesis by (simp add: grows_to_refl)
next
  case True
  from assms True obtain gc where gc: "gScore st cur = Some gc"
    by (auto simp: relax_def split: option.splits)
  define t where "t = jsnum_add gc (calculateEdgeWeight (edge nb) p)"
  show ?thesis
  proof (cases "case gScore st (to nb) of None \<Rightarrow> True | Some g \<Rightarrow> jsnum_less t g")
    case False
    then have "relax h p cur st nb = Inr st"
      by (auto simp: relax_def True gc Let_def t_def split: option.splits)
    with assms have "st' = st" by simp
    moreover from False have "gScore st (to nb) \<noteq> None" by (auto split: option.splits)
    ultimately show ?thesis by (simp add: grows_to_refl)
  next
    case upd: True
    from assms upd obtain hv where hv: "h (to nb) = Inr hv"
      by (cases "h (to nb)") (auto simp: relax_def True gc Let_def t_def split: option.splits)
    define st1 where "st1 = st\<lparr>cameFrom := (cameFrom st)(to nb \<mapsto> cur),
        edgeUsed := (edgeUsed st)(to nb \<mapsto> edge nb),
        gScore := (gScore st)(to nb \<mapsto> t)\<rparr>"
    have "relax h p cur st nb =
        Inr (if find (\<lambda>n. fst n = to nb) (openSet st1) = None
             then st1\<lparr>openSet := openSet st1 @ [(to nb, jsnum_add t (Num hv))]\<rparr> else st1)"
      using upd by (auto simp: relax_def True gc Let_def hv st1_def t_def split: option.splits)
    with assms have st': "st' = (if find (\<lambda>n. fst n = to nb) (openSet st1) = None
             then st1\<lparr>openSet := openSet st1 @ [(to nb, jsnum_add t (Num hv))]\<rparr> else st1)"
      by simp
    have "gScore st' = (gScore st)(to nb \<mapsto> t)" by (simp add: st' st1_def)
    moreover have "set (openSet st) \<subseteq> set (openSet st')" by (auto simp: st' st1_def)
    moreover have "to nb \<in> fst ` set (openSet st')"
      by (auto simp: st' find_None_fst)
    ultimately show ?thesis by (auto simp: grows_to_def)
  qed
qed

lemma relax_all_grows:
  "relax_all h p cur st nbs = Inr st' \<Longrightarrow>
     grows_to st st' \<and>
     (\<forall>nb \<in> set nbs. isEdgeAccessible (edge nb) p \<longrightarrow> gScore st' (to nb) \<noteq> None)"
proof (induction nbs arbitrary: st)
  case Nil
  then show ?case by (simp add: grows_to_refl)
next
  case (Cons nb nbs)
  from Cons.prems obtain st1 where 1: "relax h p cur st nb = Inr st1"
    "relax_all h p cur st1 nbs = Inr st'"
    by (auto split: sum.splits)
  from relax_grows[OF 1(1)] have a: "grows_to st st1"
    "isEdgeAccessible (edge nb) p \<longrightarrow> gScore st1 (to nb) \<noteq> None" by blast+
  from Cons.IH[OF 1(2)] have b: "grows_to st1 st'"
    "\<forall>x \<in> set nbs. isEdgeAccessible (edge x) p \<longrightarrow> gScore st' (to x) \<noteq> None" by blast+
  from a(2) b(1) have "isEdgeAccessible (edge nb) p \<longrightarrow> gScore st' (to nb) \<noteq> None"
    unfolding grows_to_def by blast
  with grows_to_trans[OF a(1) b(1)] b(2) show ?case by simp
qed

lemma closed_except_grows:
  assumes "closed_except g p st C" "grows_to st st'"
  shows "closed_except g p st' C"
  using assms unfolding closed_except_def grows_to_def by blast

text \<open>When the open set is empty and no node is left out, every node connected to the
  start by accessible edges has a cost.\<close>

lemma closed_reach:
  assumes "closed_except g p st {}" "openSet st = []" "gScore st s \<noteq> None"
  shows "(s, v) \<in> (acc_step g p)\<^sup>* \<Longrightarrow> gScore st v \<noteq> None"
proof (induction rule: rtrancl_induct)
  case base
  then show ?case by (rule assms(3))
next
  case (step y z)
  from step(2) obtain nb where "nb \<in> set (neighbors_of g y)" "isEdgeAccessible (edge nb) p"
    "to nb = z"
    by (auto simp: acc_step_def)
  with assms(1,2) step(3) show ?case unfolding closed_except_def by auto
qed

lemma reconstruct_loop_error_aux:
  "reconstruct_loop cfrom eused p w = Some y \<Longrightarrow> y \<noteq> Inl UndefinedArithmetic"
proof (induction rule: reconstruct_loop.raw_induct[rotated 1, consumes 1])
  case (1 reconstruct_loop cfrom eused p w y)
  show ?case
  proof (cases "cfrom (w_current w)")
    case None
    with 1(2) show ?thesis by auto
  next
    case (Some prev)
    show ?thesis
    proof (cases "eused (w_current w)")
      case None
      with Some 1(2) show ?thesis by auto
    next
      case (Some e)
      have "reconstruct_loop cfrom eused p
              \<lparr>w_path = prev # w_path w, w_edges = e # w_edges w,
               w_issues = w_issues w @ edge_issues e p, w_current = prev,
               w_totalDistance = w_totalDistance w + distance e\<rparr> = Some y"
        using 1(2) \<open>cfrom (w_current w) = Some prev\<close> Some by simp
      then show ?thesis by (rule 1(1))
    qed
  qed
qed

lemma reconstructPath_error:
  "reconstructPath cfrom eused endId tw p \<noteq> Some (Inl UndefinedArithmetic)"
  using reconstruct_loop_error_aux
  by (fastforce simp: reconstructPath_def split: option.splits sum.splits)

lemma sorted_open_split:
  assumes "openSet st \<noteq> []"
  shows "set (openSet st) =
           insert (hd (sortByFScore (openSet st))) (set (tl (sortByFScore (openSet st))))"
proof -
  let ?s = "sortByFScore (openSet st)"
  have "?s \<noteq> []" using assms sortByFScore_length[of "openSet st"] by (metis length_0_conv)
  then have "set ?s = insert (hd ?s) (set (tl ?s))" by (cases ?s) auto
  then show ?thesis by (simp only: sortByFScore_set)
qed

text \<open>What the loop returns from a state that satisfies the two invariants: never the
  outcome for a missing cost; a result has only accessible edges; it has a path only if
  the goal is connected to the start by accessible edges, and it is the \<open>notFound\<close> result
  only if the goal is not.\<close>

lemma astar_loop_partial_aux:
  "astar_loop h g endId p st = Some y \<Longrightarrow> partial_inv g p s endId st \<Longrightarrow>
   closed_except g p st {} \<Longrightarrow>
   (\<And>k. h k \<noteq> Inl UndefinedArithmetic) \<Longrightarrow>
   y \<noteq> Inl UndefinedArithmetic \<and>
   (\<forall>r. y = Inr r \<longrightarrow> (\<forall>x \<in> set (edges r). isEdgeAccessible x p) \<and>
        (path r \<noteq> [] \<longrightarrow> (s, endId) \<in> (acc_step g p)\<^sup>*) \<and>
        (r = notFoundResult \<longrightarrow> (s, endId) \<notin> (acc_step g p)\<^sup>*))"
proof (induction rule: astar_loop.raw_induct[rotated 1, consumes 1])
  case (1 astar_loop h g endId p st y)
  show ?case
  proof (cases "openSet st = []")
    case True
    with 1(2) have y: "y = Inr notFoundResult" by simp
    have "(s, endId) \<notin> (acc_step g p)\<^sup>*"
    proof
      assume "(s, endId) \<in> (acc_step g p)\<^sup>*"
      from closed_reach[OF 1(4) True _ this] 1(3) have "gScore st endId \<noteq> None"
        by (simp add: partial_inv_def)
      with 1(3) True show False by (simp add: partial_inv_def)
    qed
    with y show ?thesis by (simp add: notFoundResult_def)
  next
    case False
    define current where "current = hd (sortByFScore (openSet st))"
    define st1 where "st1 = st\<lparr>openSet := tl (sortByFScore (openSet st))\<rparr>"
    note facts = sorted_open_facts[OF False]
    note parts = sorted_open_split[OF False, folded current_def]
    have body: "(if fst current = endId
         then (case gScore st endId of
                 None \<Rightarrow> Some (Inl UndefinedArithmetic)
               | Some tw \<Rightarrow> reconstructPath (cameFrom st) (edgeUsed st) endId tw p)
         else (case relax_all h p (fst current) st1 (neighbors_of g (fst current)) of
                 Inl err \<Rightarrow> Some (Inl err)
               | Inr st' \<Rightarrow> astar_loop h g endId p st')) = Some y"
      using 1(2) False unfolding current_def st1_def
      by (auto simp: Let_def split: option.splits)
    from 1(3) facts(1) have cur: "(s, fst current) \<in> (acc_step g p)\<^sup>*"
      "gScore st (fst current) \<noteq> None"
      unfolding partial_inv_def current_def by blast+
    show ?thesis
    proof (cases "fst current = endId")
      case True
      with cur(2) obtain tw where tw: "gScore st endId = Some tw" by auto
      from body True tw have rp: "reconstructPath (cameFrom st) (edgeUsed st) endId tw p = Some y"
        by simp
      have "y \<noteq> Inl UndefinedArithmetic" using rp reconstructPath_error by metis
      moreover have "\<forall>x \<in> set (edges r). isEdgeAccessible x p" if "y = Inr r" for r
        using reconstructPath_edges[of "cameFrom st" "edgeUsed st" endId tw p r "\<lambda>e. isEdgeAccessible e p"]
          rp that 1(3) unfolding partial_inv_def by blast
      moreover have "r \<noteq> notFoundResult" if "y = Inr r" for r
        using reconstructPath_path_nonempty[of "cameFrom st" "edgeUsed st" endId tw p r] rp that
        by (auto simp: notFoundResult_def)
      ultimately show ?thesis using cur(1) True by auto
    next
      case ne: False
      have inv1: "partial_inv g p s endId st1"
      proof -
        have "gScore st endId \<noteq> None \<longrightarrow> endId \<in> fst ` set (tl (sortByFScore (openSet st)))"
        proof
          assume "gScore st endId \<noteq> None"
          with 1(3) have "endId \<in> fst ` set (openSet st)" by (simp add: partial_inv_def)
          then have "endId \<in> fst ` insert current (set (tl (sortByFScore (openSet st))))"
            by (simp only: parts)
          with ne show "endId \<in> fst ` set (tl (sortByFScore (openSet st)))" by auto
        qed
        then show ?thesis
          using 1(3) facts(2) unfolding partial_inv_def st1_def by auto
      qed
      have cl1: "closed_except g p st1 {fst current}"
        unfolding closed_except_def
      proof (intro allI impI)
        fix u
        assume u: "u \<notin> {fst current} \<and> gScore st1 u \<noteq> None \<and> u \<notin> fst ` set (openSet st1)"
        then have "u \<notin> fst ` insert current (set (tl (sortByFScore (openSet st))))"
          by (auto simp: st1_def)
        then have "u \<notin> fst ` set (openSet st)" unfolding parts .
        moreover from u have "gScore st u \<noteq> None" by (simp add: st1_def)
        ultimately have "\<forall>nb \<in> set (neighbors_of g u).
            isEdgeAccessible (edge nb) p \<longrightarrow> gScore st (to nb) \<noteq> None"
          using 1(4) unfolding closed_except_def by blast
        then show "\<forall>nb \<in> set (neighbors_of g u).
            isEdgeAccessible (edge nb) p \<longrightarrow> gScore st1 (to nb) \<noteq> None"
          by (simp add: st1_def)
      qed
      note ra = relax_all_partial_inv[of s "fst current" g p h endId st1 "neighbors_of g (fst current)",
          OF cur(1) 1(5) inv1 _ subset_refl]
      have g1: "gScore st1 (fst current) \<noteq> None" using cur(2) by (simp add: st1_def)
      show ?thesis
      proof (cases "relax_all h p (fst current) st1 (neighbors_of g (fst current))")
        case (Inl err)
        with body ne have "y = Inl err" by simp
        moreover have "err \<noteq> UndefinedArithmetic" using ra[OF g1] Inl by auto
        ultimately show ?thesis by simp
      next
        case (Inr st')
        with body ne have run: "astar_loop h g endId p st' = Some y" by simp
        have inv': "partial_inv g p s endId st'" using ra[OF g1] Inr by auto
        from relax_all_grows[OF Inr] have gr: "grows_to st1 st'"
          and filled: "\<forall>nb \<in> set (neighbors_of g (fst current)).
             isEdgeAccessible (edge nb) p \<longrightarrow> gScore st' (to nb) \<noteq> None"
          by blast+
        from closed_except_grows[OF cl1 gr] have cl2: "closed_except g p st' {fst current}" .
        have cl': "closed_except g p st' {}"
          unfolding closed_except_def
        proof (intro allI impI)
          fix u
          assume u: "u \<notin> {} \<and> gScore st' u \<noteq> None \<and> u \<notin> fst ` set (openSet st')"
          show "\<forall>nb \<in> set (neighbors_of g u).
              isEdgeAccessible (edge nb) p \<longrightarrow> gScore st' (to nb) \<noteq> None"
          proof (cases "u = fst current")
            case True
            with filled show ?thesis by simp
          next
            case False
            with u cl2 show ?thesis unfolding closed_except_def by blast
          qed
        qed
        from 1(1)[OF run inv' cl' 1(5)] show ?thesis .
      qed
    qed
  qed
qed

text \<open>A result of the loop is the \<open>notFound\<close> result or comes from reconstruction.\<close>

lemma astar_loop_shape:
  "astar_loop h g endId p st = Some y \<Longrightarrow> y = Inr r \<Longrightarrow>
     r = notFoundResult \<or>
     (\<exists>cfrom eused tw. reconstructPath cfrom eused endId tw p = Some (Inr r))"
proof (induction arbitrary: r rule: astar_loop.raw_induct[rotated 1, consumes 1])
  case (1 astar_loop h g endId p st y)
  then show ?case
    by (auto simp: Let_def split: if_splits option.splits sum.splits)
qed

lemma entries_for_member:
  "nb \<in> set (entries_for es k) \<Longrightarrow>
     \<exists>e \<in> set es. edge nb = e \<and> (to nb = edge_from e \<or> to nb = edge_to e)"
  by (induction es) (auto simp: entries_for_def split: if_splits)

lemma wellFormed_buildAdjacencyList:
  assumes "\<forall>e \<in> set es. edge_from e \<in> node_id ` set nodes \<and> edge_to e \<in> node_id ` set nodes \<and>
             0 \<le> distance e"
  shows "wellFormed (buildAdjacencyList nodes es) nodes"
  unfolding wellFormed_def
proof (intro ballI)
  fix n nb
  assume "n \<in> set nodes" "nb \<in> set (neighbors_of (buildAdjacencyList nodes es) (node_id n))"
  then have "nb \<in> set (entries_for es (node_id n))"
    by (auto simp: neighbors_of_def buildAdjacencyList_lookup split: if_splits)
  from entries_for_member[OF this] assms
  show "to nb \<in> node_id ` set nodes \<and> 0 \<le> distance (edge nb)" by auto
qed

lemma chain_wellFormed: "wellFormed chainGraph chainNodes"
  by (simp add: wellFormed_def chainNodes_def nodeA_def nodeB_def nodeC_def chainGraph_neighbors
      [unfolded chainNodes_def nodeA_def nodeB_def nodeC_def])
     (simp add: flatPath_def highCurb_def)





lemma dangling_accessible: "isEdgeAccessible danglingEdge wheelchairProfile"
  by (simp add: danglingEdge_def isEdgeAccessible_def wheelchairProfile_def)



lemma present_endpoints_shape:
  assumes run: "findAccessibleRoute g nodes s e p = Some (Inr r)"
    and s: "s \<in> node_id ` set nodes" and e: "e \<in> node_id ` set nodes"
  shows "r = notFoundResult \<or> path r \<noteq> []"
proof -
  from s e obtain sn en where n: "nodeMap_of nodes s = Some sn" "nodeMap_of nodes e = Some en"
    using nodeMap_of_None[of nodes s] nodeMap_of_None[of nodes e]
    by (cases "nodeMap_of nodes s"; cases "nodeMap_of nodes e") auto
  from run have "astar_loop (heuristic (nodeMap_of nodes) en) g e p
      (initial_state s (calculateDistance (lat sn) (lng sn) (lat en) (lng en))) = Some (Inr r)"
    by (simp add: findAccessibleRoute_unfold[OF n])
  from astar_loop_shape[OF this refl] show ?thesis
    using reconstructPath_path_nonempty by blast
qed

lemma initial_partial_inv: "partial_inv g p s e (initial_state s h0)"
  by (simp add: partial_inv_def initial_state_def)

lemma initial_closed: "closed_except g p (initial_state s h0) {}"
  by (auto simp: closed_except_def initial_state_def split: if_splits)

lemma heuristic_no_arithmetic: "heuristic nodeMap endNode k \<noteq> Inl UndefinedArithmetic"
  by (simp add: heuristic_def split: option.splits)

text \<open>What a result of a query between two nodes satisfies, whatever the graph.\<close>

lemma findAccessibleRoute_result:
  assumes run: "findAccessibleRoute g nodes s e p = Some y"
    and s: "s \<in> node_id ` set nodes" and e: "e \<in> node_id ` set nodes"
  shows "y \<noteq> Inl UndefinedArithmetic \<and>
   (\<forall>r. y = Inr r \<longrightarrow> (\<forall>x \<in> set (edges r). isEdgeAccessible x p) \<and>
        (path r \<noteq> [] \<longrightarrow> (s, e) \<in> (acc_step g p)\<^sup>*) \<and>
        (r = notFoundResult \<longrightarrow> (s, e) \<notin> (acc_step g p)\<^sup>*))"
proof -
  from s e obtain sn en where n: "nodeMap_of nodes s = Some sn" "nodeMap_of nodes e = Some en"
    using nodeMap_of_None[of nodes s] nodeMap_of_None[of nodes e]
    by (cases "nodeMap_of nodes s"; cases "nodeMap_of nodes e") auto
  let ?st = "initial_state s (calculateDistance (lat sn) (lng sn) (lat en) (lng en))"
  have loop: "astar_loop (heuristic (nodeMap_of nodes) en) g e p ?st = Some y"
    using run by (simp add: findAccessibleRoute_unfold[OF n])
  show ?thesis
    by (rule astar_loop_partial_aux[OF loop initial_partial_inv initial_closed
          heuristic_no_arithmetic])
qed




text \<open>The outcome \<open>UndefinedArithmetic\<close> is never reached: the current node always has
  a best-known cost.\<close>

lemma findAccessibleRoute_defined_arithmetic:
  "findAccessibleRoute g nodes s e p \<noteq> Some (Inl UndefinedArithmetic)"
proof (cases "s \<in> node_id ` set nodes \<and> e \<in> node_id ` set nodes")
  case False
  then have "findAccessibleRoute g nodes s e p = Some (Inr failureResult)"
    using findAccessibleRoute_missing[of s nodes e g p] by blast
  then show ?thesis by simp
next
  case True
  show ?thesis
  proof
    assume "findAccessibleRoute g nodes s e p = Some (Inl UndefinedArithmetic)"
    from findAccessibleRoute_result[OF this] True show False by blast
  qed
qed

text \<open>An entry that leads to an id outside the node list makes the heuristic raise.\<close>

lemma dangling_neighbors:
  "neighbors_of (buildAdjacencyList chainNodes [danglingEdge]) ''A'' =
     [\<lparr>to = ''Z'', edge = danglingEdge\<rparr>]"
  by (simp add: neighbors_of_def buildAdjacencyList_lookup chain_ids entries_for_def danglingEdge_def)

lemma dangling_edge_raises:
  "findAccessibleRoute (buildAdjacencyList chainNodes [danglingEdge]) chainNodes ''A'' ''C''
     wheelchairProfile = Some (Inl TypeError)"
  by (simp add: findAccessibleRoute_def Let_def chain_nodeMap chain_heuristic astar_loop.simps
      dangling_neighbors dangling_accessible relax_def sortByFScore_def fScoreValue_def)
     (simp add: heuristic_def chain_nodeMap)

lemma findAccessibleRoute_shape:
  assumes "findAccessibleRoute g nodes s e p = Some (Inr r)"
  shows "r = failureResult \<or> r = notFoundResult \<or>
     (\<exists>cfrom eused tw. reconstructPath cfrom eused e tw p = Some (Inr r))"
proof (cases "nodeMap_of nodes s = None \<or> nodeMap_of nodes e = None")
  case True
  then have "findAccessibleRoute g nodes s e p = Some (Inr failureResult)"
    by (auto simp: findAccessibleRoute_def Let_def split: option.splits)
  with assms show ?thesis by simp
next
  case False
  then obtain sn en where n: "nodeMap_of nodes s = Some sn" "nodeMap_of nodes e = Some en"
    by auto
  from assms have "astar_loop (heuristic (nodeMap_of nodes) en) g e p
        (initial_state s (calculateDistance (lat sn) (lng sn) (lat en) (lng en))) = Some (Inr r)"
    by (simp add: findAccessibleRoute_unfold[OF n])
  from astar_loop_shape[OF this refl] show ?thesis by blast
qed

text \<open>
  C5. When the start or the end is not a node, the result has empty path and edges,
  distance 0, no issues and no \<open>notFound\<close> flag. On a well-formed graph (every entry leads
  to a node, no distance is negative) the search returns a result for every query: it
  ends, and it raises nothing; between two nodes, a result without a path is the one with
  \<open>notFound\<close> true, empty path and edges, distance 0 and no issues. That is the result the
  loop returns when it is entered with an empty open set.
\<close>

theorem findAccessibleRoute_total_on_well_formed:
  "(s \<notin> node_id ` set nodes \<or> e \<notin> node_id ` set nodes \<longrightarrow>
      findAccessibleRoute g nodes s e p =
        Some (Inr \<lparr>path = [], edges = [], totalDistance = 0, totalWeight = None, issues = [],
                   accessibilityScore = None, notFound = None\<rparr>)) \<and>
   (wellFormed g nodes \<longrightarrow>
      (\<exists>r. findAccessibleRoute g nodes s e p = Some (Inr r) \<and>
           (s \<in> node_id ` set nodes \<and> e \<in> node_id ` set nodes \<and> path r = [] \<longrightarrow>
              r = \<lparr>path = [], edges = [], totalDistance = 0, totalWeight = None, issues = [],
                   accessibilityScore = None, notFound = Some True\<rparr>))) \<and>
   (openSet st = [] \<longrightarrow>
      astar_loop h g e p st =
        Some (Inr \<lparr>path = [], edges = [], totalDistance = 0, totalWeight = None, issues = [],
                   accessibilityScore = None, notFound = Some True\<rparr>))"
proof (intro conjI impI)
  assume "s \<notin> node_id ` set nodes \<or> e \<notin> node_id ` set nodes"
  from findAccessibleRoute_missing[OF this]
  show "findAccessibleRoute g nodes s e p =
        Some (Inr \<lparr>path = [], edges = [], totalDistance = 0, totalWeight = None, issues = [],
                   accessibilityScore = None, notFound = None\<rparr>)"
    by (simp add: failureResult_def)
next
  assume "wellFormed g nodes"
  then obtain r where run: "findAccessibleRoute g nodes s e p = Some (Inr r)"
    using findAccessibleRoute_total by blast
  have "r = \<lparr>path = [], edges = [], totalDistance = 0, totalWeight = None, issues = [],
             accessibilityScore = None, notFound = Some True\<rparr>"
    if "s \<in> node_id ` set nodes \<and> e \<in> node_id ` set nodes \<and> path r = []"
    using present_endpoints_shape[OF run] that by (auto simp: notFoundResult_def)
  with run show "\<exists>r. findAccessibleRoute g nodes s e p = Some (Inr r) \<and>
           (s \<in> node_id ` set nodes \<and> e \<in> node_id ` set nodes \<and> path r = [] \<longrightarrow>
              r = \<lparr>path = [], edges = [], totalDistance = 0, totalWeight = None, issues = [],
                   accessibilityScore = None, notFound = Some True\<rparr>)"
    by blast
next
  assume "openSet st = []"
  then show "astar_loop h g e p st =
        Some (Inr \<lparr>path = [], edges = [], totalDistance = 0, totalWeight = None, issues = [],
                   accessibilityScore = None, notFound = Some True\<rparr>)"
    by (subst astar_loop.simps) (simp add: notFoundResult_def)
qed

theorem findAccessibleRoute_total_on_well_formed_witness:
  "''Z'' \<notin> node_id ` set chainNodes \<and>
   findAccessibleRoute chainGraph chainNodes ''Z'' ''C'' wheelchairProfile =
        Some (Inr \<lparr>path = [], edges = [], totalDistance = 0, totalWeight = None, issues = [],
                   accessibilityScore = None, notFound = None\<rparr>) \<and>
   wellFormed chainGraph chainNodes \<and>
   (\<exists>r. findAccessibleRoute chainGraph chainNodes ''A'' ''C'' wheelchairProfile = Some (Inr r)) \<and>
   astar_loop (heuristic (nodeMap_of chainNodes) nodeC) chainGraph ''C'' wheelchairProfile
      ((initial_state ''A'' 0)\<lparr>openSet := []\<rparr>) =
        Some (Inr \<lparr>path = [], edges = [], totalDistance = 0, totalWeight = None, issues = [],
                   accessibilityScore = None, notFound = Some True\<rparr>)"
proof -
  have z: "''Z'' \<notin> node_id ` set chainNodes" by (simp add: chain_ids)
  have o: "openSet ((initial_state ''A'' 0)\<lparr>openSet := []\<rparr>) = []" by simp
  from findAccessibleRoute_total_on_well_formed [of "''Z''" chainNodes "''C''" chainGraph wheelchairProfile]
    findAccessibleRoute_total_on_well_formed [of "''A''" chainNodes "''C''" chainGraph wheelchairProfile
      "(initial_state ''A'' 0)\<lparr>openSet := []\<rparr>" "heuristic (nodeMap_of chainNodes) nodeC"]
    z o chain_wellFormed
  show ?thesis by blast
qed

text \<open>
  C10. A result of \<open>findAccessibleRoute\<close> with an empty path is one of the two failure
  results, and it has neither a \<open>totalWeight\<close> nor an \<open>accessibilityScore\<close> field; a result
  with a non-empty path, which comes from reconstruction, has both.
\<close>

theorem failure_results_lack_score_and_weight:
  assumes "findAccessibleRoute g nodes s e p = Some (Inr r)"
  shows "(path r = [] \<longrightarrow>
            (r = failureResult \<or> r = notFoundResult) \<and>
            totalWeight r = None \<and> accessibilityScore r = None) \<and>
         (path r \<noteq> [] \<longrightarrow> totalWeight r \<noteq> None \<and> accessibilityScore r \<noteq> None) \<and>
         totalWeight failureResult = None \<and> accessibilityScore failureResult = None \<and>
         totalWeight notFoundResult = None \<and> accessibilityScore notFoundResult = None"
proof -
  from findAccessibleRoute_shape[OF assms]
  consider "r = failureResult" | "r = notFoundResult"
    | cfrom eused tw where "reconstructPath cfrom eused e tw p = Some (Inr r)"
    by blast
  then show ?thesis
  proof cases
    case 1
    then show ?thesis by (simp add: failureResult_def notFoundResult_def)
  next
    case 2
    then show ?thesis by (simp add: failureResult_def notFoundResult_def)
  next
    case 3
    from reconstructPath_path_nonempty[OF 3] reconstructPath_fields(1,2)[OF 3]
    show ?thesis by (simp add: failureResult_def notFoundResult_def)
  qed
qed

theorem failure_results_lack_score_and_weight_witness:
  "findAccessibleRoute chainGraph chainNodes ''Z'' ''C'' wheelchairProfile = Some (Inr failureResult) \<and>
   findAccessibleRoute chainGraph chainNodes ''A'' ''C'' wheelchairProfile = Some (Inr notFoundResult) \<and>
   path failureResult = [] \<and> path notFoundResult = [] \<and>
   totalWeight failureResult = None \<and> accessibilityScore failureResult = None \<and>
   totalWeight notFoundResult = None \<and> accessibilityScore notFoundResult = None"
proof -
  have z: "findAccessibleRoute chainGraph chainNodes ''Z'' ''C'' wheelchairProfile = Some (Inr failureResult)"
    by (rule findAccessibleRoute_missing) (simp add: chain_ids)
  from failure_results_lack_score_and_weight [OF z] failure_results_lack_score_and_weight [OF chain_run]
    z chain_run
  show ?thesis by (simp add: failureResult_def notFoundResult_def)
qed

end
